theory Spec2Isabelle
  imports Main "HOL-Library.Word"
begin

section \<open>ttgen: truth table generator for boolean logic expressions\<close>

text \<open>
  A shallow embedding of the shunting-yard version of ttgen (tokenizer, variable
  registry, infix-to-postfix conversion in \<open>main\<close>, the postfix evaluator and the
  table printer).

  Conventions of the embedding:
  \<^item> C strings are \<open>string\<close> (the bytes before the terminating NUL);
  \<^item> the array \<open>variable[VAR_MAX]\<close> with its counter \<open>num_vars\<close> is the list of its
    non-NULL entries (the code keeps them as a prefix of the array, of length
    \<open>num_vars\<close>);
  \<^item> the array \<open>node\<close> with its counter \<open>np\<close> is a list in index order;
  \<^item> the two fixed-size stacks (\<open>stack[STACK_MAX]\<close> with \<open>sp\<close>) are lists whose
    head is the top of the stack, so \<open>sp\<close> is the length of the list;
  \<^item> \<open>int\<close> is the 32-bit C int; a left shift of an \<open>int\<close> whose result C leaves
    undefined is \<open>None\<close>, and so is the read of the never-assigned local \<open>r\<close>;
  \<^item> what the program writes is a list of events.
\<close>

subsection \<open>Types and constants\<close>

datatype type = UNKNOWN | VARIABLE | OPERATOR | LPAREN | RPAREN | NOT | SLASHVARS

definition OP_OR :: int where "OP_OR = 0"
definition OP_AND :: int where "OP_AND = 1"
definition OP_XOR :: int where "OP_XOR = 2"
definition OP_NAND :: int where "OP_NAND = 3"
definition OP_NOR :: int where "OP_NOR = 4"
definition OP_IMP :: int where "OP_IMP = 5"
definition OP_EQU :: int where "OP_EQU = 6"

record Node =
  type :: type
  id :: int

record Token =
  "text" :: string
  type :: type

definition operator :: "string list" where
  "operator = [''OR'', ''AND'', ''XOR'', ''NAND'', ''NOR'', ''IMP'', ''EQU'']"

definition short_op :: "string list" where
  "short_op = [''|'', ''&'', ''^'', '''', '''', ''->'', ''='']"

definition STACK_MAX :: nat where "STACK_MAX = 128"

definition VAR_MAX :: nat where "VAR_MAX = 64"

definition WHITESPACE :: string where
  "WHITESPACE = [CHR '' '', CHR 0x0A, CHR 0x09]"

definition LETTER :: string where
  "LETTER = ''abcdefghijklmnopqrstuvwxyzABCDEFGHIJKLMNOPQRSTUVWXYZ''"

definition NUMBER :: string where
  "NUMBER = ''0123456789''"

definition nl :: string where
  "nl = [CHR 0x0A]"

text \<open>What the program does to the outside: a write to one of the two streams, the end
  of the process with a status, or the point where C leaves the behaviour undefined.\<close>

datatype event = Stdout string | Stderr string | Exit int | Undefined

subsection \<open>C library functions used by the program\<close>

definition strspn :: "string \<Rightarrow> string \<Rightarrow> nat" where
  "strspn s accept = length (takeWhile (\<lambda>c. c \<in> set accept) s)"

text \<open>\<open>isalpha\<close> in the C locale.\<close>

definition isalpha :: "char \<Rightarrow> bool" where
  "isalpha c = (c \<in> set LETTER)"

definition tolower :: "char \<Rightarrow> char" where
  "tolower c =
     (case map_of (zip ''ABCDEFGHIJKLMNOPQRSTUVWXYZ'' ''abcdefghijklmnopqrstuvwxyz'') c of
        Some l \<Rightarrow> l
      | None \<Rightarrow> c)"

text \<open>\<open>strcasecmp_eq a b\<close> is \<open>strcasecmp(a, b) == 0\<close>.\<close>

definition strcasecmp_eq :: "string \<Rightarrow> string \<Rightarrow> bool" where
  "strcasecmp_eq a b = (map tolower a = map tolower b)"

text \<open>The bytes of a buffer that C string functions see: those before the first NUL.\<close>

definition c_string :: "string \<Rightarrow> string" where
  "c_string buf = takeWhile (\<lambda>c. c \<noteq> CHR 0x00) buf"

text \<open>\<open>a << k\<close> on a non-negative 32-bit \<open>int\<close>: defined only when the count is in
  range and the result is representable.\<close>

definition shl_int :: "int \<Rightarrow> int \<Rightarrow> int option" where
  "shl_int a k =
     (if 0 \<le> k \<and> k < 32 \<and> 0 \<le> a \<and> a * 2 ^ nat k < 2 ^ 31
      then Some (a * 2 ^ nat k) else None)"

subsection \<open>Variable registry\<close>

text \<open>The scan of \<open>var_id\<close>: \<open>(True, i)\<close> when the name is found at index \<open>i\<close>,
  \<open>(False, i)\<close> when the loop stops at index \<open>i\<close> without finding it.\<close>

fun var_scan :: "string list \<Rightarrow> string \<Rightarrow> nat \<Rightarrow> bool \<times> nat" where
  "var_scan [] var_name i = (False, i)"
| "var_scan (v # vs) var_name i =
     (if i < VAR_MAX
      then (if var_name = v then (True, i) else var_scan vs var_name (Suc i))
      else (False, i))"

text \<open>\<open>Inl\<close> is the message of \<open>die\<close>; \<open>Inr\<close> the id and the updated registry.\<close>

definition var_id :: "string list \<Rightarrow> string \<Rightarrow> string + nat \<times> string list" where
  "var_id variable var_name =
     (case var_scan variable var_name 0 of
        (True, i) \<Rightarrow> Inr (i, variable)
      | (False, i) \<Rightarrow>
          if i = VAR_MAX then Inl (''error: maximum of 64 variables'' @ nl)
          else Inr (i, variable @ [var_name]))"

fun oper_scan :: "string list \<Rightarrow> string list \<Rightarrow> string \<Rightarrow> int \<Rightarrow> int" where
  "oper_scan (n # ns) (s # ss) oper_name i =
     (if strcasecmp_eq oper_name n then i
      else if oper_name = s then i
      else oper_scan ns ss oper_name (i + 1))"
| "oper_scan _ _ oper_name i = - 1"

definition oper_id :: "string \<Rightarrow> int" where
  "oper_id oper_name = oper_scan operator short_op oper_name 0"

subsection \<open>Tokenizer\<close>

fun match_short :: "string list \<Rightarrow> string \<Rightarrow> string option" where
  "match_short [] p = None"
| "match_short (s # ss) p =
     (if s = [] then match_short ss p
      else if take (length s) p = s then Some s
      else match_short ss p)"

text \<open>The symbolic forms, tried when the first character is not a letter.\<close>

definition symbolic :: "string \<Rightarrow> (Token \<times> string) option" where
  "symbolic p =
     (if take 1 p = ''!'' then Some (\<lparr>text = ''!'', type = NOT\<rparr>, drop 1 p)
      else (case match_short short_op p of
              Some s \<Rightarrow> Some (\<lparr>text = s, type = OPERATOR\<rparr>, drop (length s) p)
            | None \<Rightarrow> None))"

definition word_token :: "string \<Rightarrow> Token \<times> string" where
  "word_token p =
     (let len = strspn p (LETTER @ NUMBER @ [CHR ''_'', CHR 0x27]) in
      if len = 0 then (\<lparr>text = [], type = UNKNOWN\<rparr>, p)
      else
        (let w = take len p in
         if strcasecmp_eq w ''NOT'' then (\<lparr>text = w, type = NOT\<rparr>, drop len p)
         else if list_ex (strcasecmp_eq w) operator
           then (\<lparr>text = w, type = OPERATOR\<rparr>, drop len p)
         else (\<lparr>text = w, type = VARIABLE\<rparr>, drop len p)))"

text \<open>\<open>next_token\<close> on the text from \<open>input_ptr\<close> on: \<open>None\<close> at the end of the string,
  otherwise the token and the text after it.\<close>

definition next_token :: "string \<Rightarrow> (Token \<times> string) option" where
  "next_token inp =
     (let p = drop (strspn inp WHITESPACE) inp in
      case p of
        [] \<Rightarrow> None
      | c # cs \<Rightarrow>
          if c = CHR ''('' then Some (\<lparr>text = [c], type = LPAREN\<rparr>, cs)
          else if c = CHR '')'' then Some (\<lparr>text = [c], type = RPAREN\<rparr>, cs)
          else if c = CHR ''/'' then Some (\<lparr>text = [c], type = SLASHVARS\<rparr>, cs)
          else
            (case (if \<not> isalpha c then symbolic p else None) of
               Some r \<Rightarrow> Some r
             | None \<Rightarrow> Some (word_token p)))"

subsection \<open>Evaluator\<close>

text \<open>The inner \<open>switch\<close> of \<open>evaluate\<close>: the new value of \<open>r\<close>, or \<open>None\<close> when no case
  matches and \<open>r\<close> is left as it was.\<close>

definition oper_rule :: "int \<Rightarrow> int \<Rightarrow> int \<Rightarrow> int option" where
  "oper_rule k a b =
     (if k = OP_OR then Some (if a \<noteq> 0 \<or> b \<noteq> 0 then 1 else 0)
      else if k = OP_AND then Some (if a \<noteq> 0 \<and> b \<noteq> 0 then 1 else 0)
      else if k = OP_XOR then Some (if a \<noteq> b then 1 else 0)
      else if k = OP_NAND then Some (if \<not> (a \<noteq> 0 \<and> b \<noteq> 0) then 1 else 0)
      else if k = OP_NOR then Some (if \<not> (a \<noteq> 0 \<or> b \<noteq> 0) then 1 else 0)
      else if k = OP_IMP then Some (if a = 0 \<or> b \<noteq> 0 then 1 else 0)
      else if k = OP_EQU then Some (if a = b then 1 else 0)
      else None)"

text \<open>One pass of the loop body: go on with a new stack and \<open>r\<close>, return a value, or
  undefined behaviour.\<close>

datatype step = Go "int list" "int option" | Ret int | Undef

definition eval_node :: "Node \<Rightarrow> 64 word \<Rightarrow> int list \<Rightarrow> int option \<Rightarrow> step" where
  "eval_node n bits stack r =
     (case Node.type n of
        VARIABLE \<Rightarrow>
          if length stack \<ge> STACK_MAX then Ret (- 1)
          else (case shl_int 1 (id n) of
                  None \<Rightarrow> Undef
                | Some m \<Rightarrow> Go ((if and bits (word_of_int m) \<noteq> 0 then 1 else 0) # stack) r)
      | OPERATOR \<Rightarrow>
          (case stack of
             b # a # rest \<Rightarrow>
               (let r' = (case oper_rule (id n) a b of Some v \<Rightarrow> Some v | None \<Rightarrow> r) in
                if length rest \<ge> STACK_MAX then Ret (- 1)
                else (case r' of
                        None \<Rightarrow> Undef
                      | Some v \<Rightarrow> Go (v # rest) r'))
           | _ \<Rightarrow> Ret (- 2))
      | NOT \<Rightarrow>
          (case stack of
             [] \<Rightarrow> Ret (- 2)
           | v # rest \<Rightarrow> Go ((if v = 0 then 1 else 0) # rest) r)
      | _ \<Rightarrow> Go stack r)"

fun evaluate_loop :: "Node list \<Rightarrow> 64 word \<Rightarrow> int list \<Rightarrow> int option \<Rightarrow> int option" where
  "evaluate_loop [] bits stack r =
     (case stack of [v] \<Rightarrow> Some v | _ \<Rightarrow> Some (- 3))"
| "evaluate_loop (n # ns) bits stack r =
     (case eval_node n bits stack r of
        Go stack' r' \<Rightarrow> evaluate_loop ns bits stack' r'
      | Ret v \<Rightarrow> Some v
      | Undef \<Rightarrow> None)"

text \<open>\<open>evaluate(bits)\<close> on the global node array: \<open>Some\<close> of the returned \<open>int\<close>, or
  \<open>None\<close> for undefined behaviour.\<close>

definition evaluate :: "Node list \<Rightarrow> 64 word \<Rightarrow> int option" where
  "evaluate nodes bits = evaluate_loop nodes bits [] None"

subsection \<open>Table printer\<close>

text \<open>\<open>"FT"[k]\<close>: the string literal has three bytes.\<close>

definition FT :: "int \<Rightarrow> char option" where
  "FT k = (if k = 0 then Some CHR ''F'' else if k = 1 then Some CHR ''T''
           else if k = 2 then Some CHR 0x00 else None)"

text \<open>\<open>printf("%-*c ", w, c)\<close>.\<close>

definition cell :: "nat \<Rightarrow> char \<Rightarrow> string" where
  "cell w c = c # replicate (w - 1) CHR '' '' @ '' ''"

definition header :: "string list \<Rightarrow> string" where
  "header variable = concat (map (\<lambda>v. v @ '' '') variable) @ nl"

fun row_cells :: "string list \<Rightarrow> 64 word \<Rightarrow> nat \<Rightarrow> string option" where
  "row_cells [] i b = Some []"
| "row_cells (v # vs) i b =
     (case shl_int 1 (int b) of
        None \<Rightarrow> None
      | Some m \<Rightarrow>
          (case row_cells vs i (Suc b) of
             None \<Rightarrow> None
           | Some s \<Rightarrow> Some (cell (length v) (if and i (word_of_int m) \<noteq> 0 then CHR ''T'' else CHR ''F'') @ s)))"

text \<open>One pass of the outer loop of \<open>print_table\<close>: the text of the row for the
  assignment \<open>i\<close>, or \<open>None\<close> for undefined behaviour.\<close>

definition table_row :: "string list \<Rightarrow> Node list \<Rightarrow> 64 word \<Rightarrow> string option" where
  "table_row variable nodes i =
     (case row_cells variable i 0 of
        None \<Rightarrow> None
      | Some cells \<Rightarrow>
          (case evaluate nodes i of
             None \<Rightarrow> None
           | Some v \<Rightarrow>
               (case FT v of
                  None \<Rightarrow> None
                | Some c \<Rightarrow> Some (cells @ '' '' @ [c] @ nl))))"

function table_rows :: "string list \<Rightarrow> Node list \<Rightarrow> 64 word \<Rightarrow> event list" where
  "table_rows variable nodes i =
     (if i = - 1 then []
      else (case table_row variable nodes i of
              None \<Rightarrow> [Undefined]
            | Some s \<Rightarrow> Stdout s # table_rows variable nodes (i - 1)))"
  by pat_completeness auto
termination
proof (relation "measure (\<lambda>(variable, nodes, i). unat (i + 1))")
  show "wf (measure (\<lambda>(variable, nodes, i). unat (i + 1)))"
    by simp
next
  fix variable :: "string list" and nodes :: "Node list" and i :: "64 word" and s :: string
  assume "i \<noteq> - 1"
  then have "i + 1 \<noteq> 0"
    by (simp add: add_eq_0_iff2)
  then have "unat (i + 1 - 1) < unat (i + 1)"
    by (rule measure_unat)
  then show "((variable, nodes, i - 1), (variable, nodes, i)) \<in> measure (\<lambda>(variable, nodes, i). unat (i + 1))"
    by simp
qed

text \<open>\<open>print_table\<close>: the check at assignment 0, the header, then the rows from
  \<open>(1 << num_vars) - 1\<close> down to 0.\<close>

definition print_table :: "string list \<Rightarrow> Node list \<Rightarrow> event list" where
  "print_table variable nodes =
     (case evaluate nodes 0 of
        None \<Rightarrow> [Undefined]
      | Some fail \<Rightarrow>
          if fail < 0 then
            (if fail = - 1 then [Stderr (''error: stack overflow'' @ nl)]
             else if fail = - 2 then [Stderr (''error: stack underflow'' @ nl)]
             else if fail = - 3 then [Stderr (''error: stack not empty'' @ nl)]
             else [])
          else
            Stdout (header variable) #
            (case shl_int 1 (int (length variable)) of
               None \<Rightarrow> [Undefined]
             | Some m \<Rightarrow> table_rows variable nodes (word_of_int (m - 1))))"

subsection \<open>Parser: the loop of \<open>main\<close>\<close>

text \<open>The variables that \<open>main\<close> and its helpers share: the registry, the node array,
  the operator stack of \<open>main\<close> and its two flags.\<close>

record state =
  variable :: "string list"
  node :: "Node list"
  stack :: "Token list"
  first_token :: bool
  slashvar_mode :: bool

text \<open>How a step of the parser ends: it goes on, it jumps to \<open>cleanup\<close> after writing
  an error message, or it ends the process through \<open>die\<close>.\<close>

datatype outcome = Next state | Cleanup string | Die string

text \<open>\<open>output\<close> appends a node. The \<open>id\<close> of a node that is neither an operator nor a
  variable is never assigned (and never read); it is 0 here.\<close>

definition "output" :: "Token \<Rightarrow> state \<Rightarrow> outcome" where
  "output t st =
     (if Token.type t = OPERATOR
        then Next (st\<lparr>node := node st @ [\<lparr>Node.type = OPERATOR, id = oper_id (text t)\<rparr>]\<rparr>)
      else if Token.type t = VARIABLE
        then (case var_id (variable st) (text t) of
                Inl msg \<Rightarrow> Die msg
              | Inr (i, vars) \<Rightarrow>
                  Next (st\<lparr>variable := vars,
                           node := node st @ [\<lparr>Node.type = VARIABLE, id = int i\<rparr>]\<rparr>))
      else Next (st\<lparr>node := node st @ [\<lparr>Node.type = Token.type t, id = 0\<rparr>]\<rparr>))"

definition PUSH :: "Token \<Rightarrow> state \<Rightarrow> outcome" where
  "PUSH t st =
     (if length (stack st) \<ge> STACK_MAX then Cleanup (''error: stack overflow'' @ nl)
      else Next (st\<lparr>stack := t # stack st\<rparr>))"

text \<open>The three loops that pop the operator stack. Each takes the stack as its first
  argument and stores what is left of it in the state when it stops.\<close>

text \<open>\<open>while(sp && (stack[sp-1]->type == OPERATOR || stack[sp-1]->type == NOT))\<close>\<close>

fun pop_operators :: "Token list \<Rightarrow> state \<Rightarrow> outcome" where
  "pop_operators [] st = Next (st\<lparr>stack := []\<rparr>)"
| "pop_operators (x # xs) st =
     (if Token.type x = OPERATOR \<or> Token.type x = NOT
      then (case output x st of
              Next st' \<Rightarrow> pop_operators xs st'
            | other \<Rightarrow> other)
      else Next (st\<lparr>stack := x # xs\<rparr>))"

text \<open>\<open>while(sp && (stack[sp-1]->type != LPAREN))\<close>\<close>

fun pop_to_lparen :: "Token list \<Rightarrow> state \<Rightarrow> outcome" where
  "pop_to_lparen [] st = Next (st\<lparr>stack := []\<rparr>)"
| "pop_to_lparen (x # xs) st =
     (if Token.type x \<noteq> LPAREN
      then (case output x st of
              Next st' \<Rightarrow> pop_to_lparen xs st'
            | other \<Rightarrow> other)
      else Next (st\<lparr>stack := x # xs\<rparr>))"

text \<open>\<open>while(sp)\<close> after the last token.\<close>

fun drain :: "Token list \<Rightarrow> state \<Rightarrow> outcome" where
  "drain [] st = Next (st\<lparr>stack := []\<rparr>)"
| "drain (x # xs) st =
     (if Token.type x = LPAREN then Cleanup (''error: mismatched parentheses'' @ nl)
      else (case output x st of
              Next st' \<Rightarrow> drain xs st'
            | other \<Rightarrow> other))"

text \<open>The body of the token loop, for a token that is not \<open>UNKNOWN\<close>.\<close>

definition handle_token :: "state \<Rightarrow> Token \<Rightarrow> outcome" where
  "handle_token st t =
     (if slashvar_mode st then
        (if Token.type t = VARIABLE
         then (case var_id (variable st) (text t) of
                 Inl msg \<Rightarrow> Die msg
               | Inr (i, vars) \<Rightarrow> Next (st\<lparr>variable := vars\<rparr>))
         else Cleanup (''error: non-variable '' @ [CHR 0x22] @ text t @ [CHR 0x22]
                        @ '' in slashvar line'' @ nl))
      else
        (case Token.type t of
           VARIABLE \<Rightarrow> output t st
         | OPERATOR \<Rightarrow>
             (case pop_operators (stack st) st of
                Next st' \<Rightarrow> PUSH t st'
              | other \<Rightarrow> other)
         | LPAREN \<Rightarrow> PUSH t st
         | RPAREN \<Rightarrow>
             (case pop_to_lparen (stack st) st of
                Next st' \<Rightarrow>
                  (if stack st' = [] then Cleanup (''error: mismatched parentheses'' @ nl)
                   else Next (st'\<lparr>stack := tl (stack st')\<rparr>))
              | other \<Rightarrow> other)
         | NOT \<Rightarrow> PUSH t st
         | SLASHVARS \<Rightarrow>
             (if \<not> first_token st
              then Cleanup (''error: slashvars can not be embedded in expressions'' @ nl)
              else Next (st\<lparr>variable := [], slashvar_mode := True\<rparr>))
         | UNKNOWN \<Rightarrow> Next st))"

text \<open>\<open>while((t = next_token()))\<close> on the text that is left of the line.\<close>

function token_loop :: "state \<Rightarrow> string \<Rightarrow> outcome" where
  "token_loop st inp =
     (case next_token inp of
        None \<Rightarrow> Next st
      | Some (t, rest) \<Rightarrow>
          if Token.type t = UNKNOWN
          then Cleanup (''error: unexpected character '' @ [CHR 0x27] @ take 1 rest
                         @ [CHR 0x27] @ nl)
          else (case handle_token st t of
                  Next st' \<Rightarrow> token_loop (st'\<lparr>first_token := False\<rparr>) rest
                | other \<Rightarrow> other))"
  by pat_completeness auto

termination
proof (relation "measure (\<lambda>(st, inp). length inp)")
  show "wf (measure (\<lambda>(st :: state, inp :: string). length inp))"
    by simp
next
  fix st :: state and inp :: string and x2 :: "Token \<times> string" and t :: Token
    and rest :: string and st' :: state
  assume nt: "next_token inp = Some x2" and x2: "(t, rest) = x2"
    and u: "Token.type t \<noteq> UNKNOWN"
  have ms: "match_short ss q = Some s \<Longrightarrow> s \<noteq> [] \<and> take (length s) q = s"
    for ss q s
    by (induction ss) (auto split: if_splits)
  define p where "p = drop (strspn inp WHITESPACE) inp"
  have lp: "length p \<le> length inp"
    by (simp add: p_def)
  from nt obtain c cs where pc: "p = c # cs"
    by (cases p) (auto simp: next_token_def p_def [symmetric])
  have sy: "length rest < length p" if "symbolic p = Some (t, rest)"
    using that pc
    by (auto simp: symbolic_def split: if_splits option.splits dest!: ms)
  have wt: "length rest < length p" if w: "word_token p = (t, rest)"
  proof -
    define len where "len = strspn p (LETTER @ NUMBER @ [CHR ''_'', CHR 0x27])"
    have le: "len \<le> length p"
      unfolding len_def strspn_def by (rule length_takeWhile_le)
    from w u have pos: "len \<noteq> 0"
      by (cases "len = 0") (auto simp: word_token_def len_def [symmetric])
    from w pos have "rest = drop len p"
      by (auto simp: word_token_def len_def [symmetric] Let_def split: if_splits)
    with le pos show ?thesis by simp
  qed
  have "length rest < length p"
    using nt x2 [symmetric] u pc sy wt
    by (auto simp: next_token_def p_def [symmetric] Let_def split: if_splits option.splits)
  with lp show "((st'\<lparr>first_token := False\<rparr>, rest), (st, inp)) \<in> measure (\<lambda>(st, inp). length inp)"
    by simp
qed

text \<open>The static variables at program start, and the shared state after \<open>cleanup\<close>:
  no variable, no node, an empty stack. The two flags are set at the top of the loop
  over the lines before they are read.\<close>

definition empty_state :: state where
  "empty_state = \<lparr>variable = [], node = [], stack = [], first_token = True,
                   slashvar_mode = False\<rparr>"

text \<open>The parsing part of one pass of the loop over the lines: the flags are set, the
  tokens are read, and unless the line is a slashvar line the operators left on the
  stack are output.\<close>

definition parse_line :: "state \<Rightarrow> string \<Rightarrow> outcome" where
  "parse_line st line =
     (case token_loop (st\<lparr>first_token := True, slashvar_mode := False\<rparr>) (c_string line) of
        Next st1 \<Rightarrow> if slashvar_mode st1 then Next st1 else drain (stack st1) st1
      | other \<Rightarrow> other)"

text \<open>One pass of the loop over the lines, on what \<open>fgets\<close> has stored: the events of the
  line and the state for the next line, or \<open>None\<close> when the program does not go on.\<close>

definition process_line :: "state \<Rightarrow> string \<Rightarrow> event list \<times> state option" where
  "process_line st line =
     (case parse_line st line of
        Die msg \<Rightarrow> ([Stderr msg, Exit 1], None)
      | Cleanup msg \<Rightarrow> ([Stderr msg, Stdout nl], Some empty_state)
      | Next st' \<Rightarrow>
          if slashvar_mode st' then ([], Some st')
          else
            (let evs = print_table (variable st') (node st') in
             if Undefined \<in> set evs then (evs, None)
             else (evs @ [Stdout nl], Some empty_state)))"

text \<open>The loop over the lines that \<open>fgets\<close> returns, up to the end of the input.\<close>

fun run :: "state \<Rightarrow> string list \<Rightarrow> event list" where
  "run st [] = [Exit 0]"
| "run st (line # lines) =
     (case process_line st line of
        (evs, None) \<Rightarrow> evs
      | (evs, Some st') \<Rightarrow> evs @ run st' lines)"

definition main :: "string list \<Rightarrow> event list" where
  "main lines = run empty_state lines"

subsection \<open>Vocabulary of the proofs\<close>

text \<open>Stacks and values of \<open>r\<close> that hold only 0 and 1.\<close>

definition bool_stack :: "int list \<Rightarrow> bool" where
  "bool_stack s = list_all (\<lambda>v. v = 0 \<or> v = 1) s"

definition bool_r :: "int option \<Rightarrow> bool" where
  "bool_r r = (case r of None \<Rightarrow> True | Some v \<Rightarrow> v = 0 \<or> v = 1)"

text \<open>Two passes of the loop body of \<open>evaluate\<close> that end the same way, and two results
  of \<open>evaluate\<close> that are of the same kind.\<close>

definition step_sim :: "step \<Rightarrow> step \<Rightarrow> bool" where
  "step_sim x y =
     (case x of
        Go s r \<Rightarrow>
          (case y of
             Go s' r' \<Rightarrow> bool_stack s \<and> bool_stack s' \<and> length s = length s'
                          \<and> bool_r r \<and> bool_r r' \<and> (r = None) = (r' = None)
           | _ \<Rightarrow> False)
      | Ret v \<Rightarrow> y = Ret v \<and> v < 0
      | Undef \<Rightarrow> y = Undef)"

definition result_sim :: "int option \<Rightarrow> int option \<Rightarrow> bool" where
  "result_sim x y =
     (case x of
        None \<Rightarrow> y = None
      | Some v \<Rightarrow>
          if v < 0 then y = Some v
          else (v = 0 \<or> v = 1) \<and> (y = Some 0 \<or> y = Some 1))"

text \<open>The text of the table row for the assignment \<open>i\<close>, as the specification describes
  it: one field per variable in registry order showing its bit, padded to the width
  of the name, then the result.\<close>

definition row_text :: "string list \<Rightarrow> Node list \<Rightarrow> 64 word \<Rightarrow> string" where
  "row_text vars nodes i =
     concat (map (\<lambda>(b, v). cell (length v) (if bit i b then CHR ''T'' else CHR ''F''))
                 (enumerate 0 vars))
     @ '' '' @ [if evaluate nodes i = Some 1 then CHR ''T'' else CHR ''F''] @ nl"

text \<open>The configuration of the token loop (state and text left) after \<open>k\<close> tokens have
  been handled without error, if the loop gets that far.\<close>

fun config_after :: "nat \<Rightarrow> state \<Rightarrow> string \<Rightarrow> (state \<times> string) option" where
  "config_after 0 st inp = Some (st, inp)"
| "config_after (Suc k) st inp =
     (case next_token inp of
        None \<Rightarrow> None
      | Some (t, rest) \<Rightarrow>
          if Token.type t = UNKNOWN then None
          else (case handle_token st t of
                  Next st' \<Rightarrow> config_after k (st'\<lparr>first_token := False\<rparr>) rest
                | _ \<Rightarrow> None))"

text \<open>Only operators, NOT and left parentheses are on the operator stack.\<close>

definition stack_ok :: "Token list \<Rightarrow> bool" where
  "stack_ok ts = list_all (\<lambda>t. Token.type t = OPERATOR \<or> Token.type t = NOT \<or> Token.type t = LPAREN) ts"

text \<open>The tokens of a line, up to its end or up to the first \<open>UNKNOWN\<close> token. Every token
  but \<open>UNKNOWN\<close> takes at least one character, so the length of the text is fuel
  enough.\<close>

fun tokens_upto :: "nat \<Rightarrow> string \<Rightarrow> Token list" where
  "tokens_upto 0 inp = []"
| "tokens_upto (Suc k) inp =
     (case next_token inp of
        None \<Rightarrow> []
      | Some (t, rest) \<Rightarrow> if Token.type t = UNKNOWN then [t] else t # tokens_upto k rest)"

definition tokens :: "string \<Rightarrow> Token list" where
  "tokens inp = tokens_upto (length inp) inp"

text \<open>The registry after a name has been looked up in it, and the registry built from
  nothing by a list of names: the names in the order of their first appearance.\<close>

definition register :: "string \<Rightarrow> string list \<Rightarrow> string list" where
  "register var_name vars = (if var_name \<in> set vars then vars else vars @ [var_name])"

definition first_seen :: "string list \<Rightarrow> string list" where
  "first_seen names = fold register names []"

text \<open>Nodes whose variable ids are ids of the registry and whose operator ids are
  operators; tokens of the operator stack that will give such nodes.\<close>

definition ids_ok :: "string list \<Rightarrow> Node list \<Rightarrow> bool" where
  "ids_ok vars nodes =
     list_all (\<lambda>n. (if Node.type n = VARIABLE then 0 \<le> id n \<and> id n < int (length vars)
                     else if Node.type n = OPERATOR then 0 \<le> id n \<and> id n < 7
                     else True)) nodes"

definition token_ok :: "Token \<Rightarrow> bool" where
  "token_ok t = (if Token.type t = OPERATOR then 0 \<le> oper_id (text t) \<and> oper_id (text t) < 7
                 else Token.type t \<noteq> UNKNOWN)"

text \<open>What holds of the state of the parser between two tokens.\<close>

definition parser_inv :: "state \<Rightarrow> bool" where
  "parser_inv st =
     (ids_ok (variable st) (node st) \<and> list_all token_ok (stack st) \<and> stack_ok (stack st)
      \<and> (if first_token st then node st = [] else True))"

text \<open>The stack pointer of \<open>evaluate\<close> alone: the number of values on the stack after the
  nodes, or \<open>None\<close> when \<open>evaluate\<close> returns -1 or -2 on the way.\<close>

fun depth_after :: "Node list \<Rightarrow> nat \<Rightarrow> nat option" where
  "depth_after [] sp = Some sp"
| "depth_after (n # ns) sp =
     (case Node.type n of
        VARIABLE \<Rightarrow> if sp \<ge> STACK_MAX then None else depth_after ns (Suc sp)
      | OPERATOR \<Rightarrow>
          if sp \<le> 1 then None
          else if sp - 2 \<ge> STACK_MAX then None
          else depth_after ns (sp - 1)
      | NOT \<Rightarrow> if sp = 0 then None else depth_after ns sp
      | _ \<Rightarrow> depth_after ns sp)"

text \<open>The form of an infix expression, on the types of the tokens of a line: operands
  and binary operators alternate; \<open>NOT\<close> and \<open>(\<close> stand where an operand may start, \<open>)\<close>
  stands after an operand. (The tree-building version of the program follows the same
  alternation with its variable \<open>expect\<close>; the version modelled here does not.)\<close>

datatype expect = EXPR | OPER

fun expression_form :: "expect \<Rightarrow> type list \<Rightarrow> bool" where
  "expression_form e [] = (e = OPER)"
| "expression_form e (t # ts) =
     (case t of
        VARIABLE \<Rightarrow> e = EXPR \<and> expression_form OPER ts
      | NOT \<Rightarrow> e = EXPR \<and> expression_form EXPR ts
      | LPAREN \<Rightarrow> e = EXPR \<and> expression_form EXPR ts
      | OPERATOR \<Rightarrow> e = OPER \<and> expression_form EXPR ts
      | RPAREN \<Rightarrow> e = OPER \<and> expression_form OPER ts
      | _ \<Rightarrow> False)"

text \<open>The number of binary operators on the operator stack, and stacks on which every
  binary operator lies directly on a left parenthesis or at the bottom.\<close>

definition count_ops :: "Token list \<Rightarrow> nat" where
  "count_ops ts = length (filter (\<lambda>t. Token.type t = OPERATOR) ts)"

fun separated :: "Token list \<Rightarrow> bool" where
  "separated (t # u # ts) =
     ((if Token.type t = OPERATOR then Token.type u = LPAREN else True) \<and> separated (u # ts))"
| "separated _ = True"

text \<open>The state of the parser between two tokens of an expression, where \<open>e\<close> tells
  whether an operand has just been completed: the nodes leave one value for each binary
  operator on the operator stack, and one more after an operand.\<close>

definition balanced :: "expect \<Rightarrow> state \<Rightarrow> bool" where
  "balanced e st =
     (depth_after (node st) 0 = Some (count_ops (stack st) + (if e = OPER then 1 else 0))
      \<and> separated (stack st) \<and> stack_ok (stack st) \<and> length (stack st) \<le> STACK_MAX)"

text \<open>The token loop on a list of tokens, none of them \<open>UNKNOWN\<close>.\<close>

fun token_steps :: "state \<Rightarrow> Token list \<Rightarrow> outcome" where
  "token_steps st [] = Next st"
| "token_steps st (t # ts) =
     (case handle_token st t of
        Next st' \<Rightarrow> token_steps (st'\<lparr>first_token := False\<rparr>) ts
      | other \<Rightarrow> other)"

text \<open>The grammar of the specification: NOT binds to the operand that follows it, an
  operand being a variable, a negated operand or an expression in parentheses; the
  binary operators have one precedence, lower than NOT, and associate to the left.
  \<open>Neg\<close> and \<open>Binary\<close> carry the spelling of their token.\<close>

datatype operand = Var string | Neg string operand | Paren expr
  and expr = Operand operand | Binary expr string operand

fun operand_tokens :: "operand \<Rightarrow> Token list" and expr_tokens :: "expr \<Rightarrow> Token list" where
  "operand_tokens (Var x) = [\<lparr>text = x, type = VARIABLE\<rparr>]"
| "operand_tokens (Neg s u) = \<lparr>text = s, type = NOT\<rparr> # operand_tokens u"
| "operand_tokens (Paren e) =
     \<lparr>text = ''('', type = LPAREN\<rparr> # expr_tokens e @ [\<lparr>text = '')'', type = RPAREN\<rparr>]"
| "expr_tokens (Operand u) = operand_tokens u"
| "expr_tokens (Binary e s u) =
     expr_tokens e @ \<lparr>text = s, type = OPERATOR\<rparr> # operand_tokens u"

text \<open>The truth rules of the specification, by operator id.\<close>

definition truth_rule :: "int \<Rightarrow> bool \<Rightarrow> bool \<Rightarrow> bool" where
  "truth_rule k a b =
     (if k = OP_OR then a \<or> b
      else if k = OP_AND then a \<and> b
      else if k = OP_XOR then a \<noteq> b
      else if k = OP_NAND then \<not> (a \<and> b)
      else if k = OP_NOR then \<not> (a \<or> b)
      else if k = OP_IMP then \<not> a \<or> b
      else if k = OP_EQU then a = b
      else False)"

fun operand_value :: "(string \<Rightarrow> bool) \<Rightarrow> operand \<Rightarrow> bool"
  and expr_value :: "(string \<Rightarrow> bool) \<Rightarrow> expr \<Rightarrow> bool" where
  "operand_value env (Var x) = env x"
| "operand_value env (Neg s u) = (\<not> operand_value env u)"
| "operand_value env (Paren e) = expr_value env e"
| "expr_value env (Operand u) = operand_value env u"
| "expr_value env (Binary e s u) =
     truth_rule (oper_id s) (expr_value env e) (operand_value env u)"

text \<open>The truth value that an assignment gives to a name: the bit at the index of the
  name in the registry.\<close>

fun index_of :: "string list \<Rightarrow> string \<Rightarrow> nat" where
  "index_of [] x = 0"
| "index_of (v # vs) x = (if x = v then 0 else Suc (index_of vs x))"

definition assignment :: "string list \<Rightarrow> 64 word \<Rightarrow> string \<Rightarrow> bool" where
  "assignment vars bits x = bit bits (index_of vars x)"

text \<open>The loop of \<open>evaluate\<close> on some of the nodes, and nodes that push one value.\<close>

fun run_nodes :: "Node list \<Rightarrow> 64 word \<Rightarrow> int list \<Rightarrow> int option \<Rightarrow> step" where
  "run_nodes [] bits s r = Go s r"
| "run_nodes (n # ns) bits s r =
     (case eval_node n bits s r of
        Go s' r' \<Rightarrow> run_nodes ns bits s' r'
      | other \<Rightarrow> other)"

definition pushes :: "Node list \<Rightarrow> 64 word \<Rightarrow> bool \<Rightarrow> bool" where
  "pushes ns bits v =
     (\<forall>s r s' r'. run_nodes ns bits s r = Go s' r' \<longrightarrow> s' = (if v then 1 else 0) # s)"

text \<open>The node that \<open>output\<close> appends for a token of the operator stack.\<close>

definition node_of :: "Token \<Rightarrow> Node" where
  "node_of t =
     (if Token.type t = OPERATOR then \<lparr>Node.type = OPERATOR, id = oper_id (text t)\<rparr>
      else \<lparr>Node.type = Token.type t, id = 0\<rparr>)"

definition pending :: "Token list \<Rightarrow> bool" where
  "pending ts = list_all (\<lambda>t. Token.type t = OPERATOR \<or> Token.type t = NOT) ts"

definition barrier :: "Token list \<Rightarrow> bool" where
  "barrier ts = (case ts of [] \<Rightarrow> True
                 | t # _ \<Rightarrow> Token.type t \<noteq> OPERATOR \<and> Token.type t \<noteq> NOT)"

text \<open>The parser has gone from \<open>st\<close> to \<open>st'\<close> over the tokens of an operand or of an
  expression with the value \<open>val\<close>: the nodes it has appended, followed by the nodes of
  the tokens it has left on the operator stack, push that value.\<close>

definition reaches :: "state \<Rightarrow> state \<Rightarrow> ((string \<Rightarrow> bool) \<Rightarrow> bool) \<Rightarrow> bool" where
  "reaches st st' val =
     (\<exists>pre pend ws.
        node st' = node st @ pre \<and> stack st' = pend @ stack st \<and> pending pend
        \<and> variable st' = variable st @ ws \<and> \<not> slashvar_mode st'
        \<and> (\<forall>ws' bits. pushes (pre @ map node_of pend) bits
                         (val (assignment (variable st' @ ws') bits))))"

section \<open>Properties\<close>

subsection \<open>Helper facts\<close>

lemmas oper_defs = OP_OR_def OP_AND_def OP_XOR_def OP_NAND_def OP_NOR_def OP_IMP_def OP_EQU_def

subsubsection \<open>Shifts and the loop body of the evaluator\<close>

lemma shl_int_1: "shl_int 1 k = (if 0 \<le> k \<and> k < 31 then Some (2 ^ nat k) else None)"
proof -
  have "((2::int) ^ nat k < 2 ^ 31) = (nat k < 31)"
    by (rule power_strict_increasing_iff) simp
  then show ?thesis
    by (auto simp: shl_int_def)
qed

lemma and_pow_bit: "(and (bits :: 64 word) (2 ^ k) \<noteq> 0) = bit bits k"
  by (simp add: and_exp_eq_0_iff_not_bit)

lemma eval_node_variable:
  "eval_node \<lparr>Node.type = VARIABLE, id = k\<rparr> bits s r =
     (if length s \<ge> STACK_MAX then Ret (- 1)
      else if 0 \<le> k \<and> k < 31 then Go ((if bit bits (nat k) then 1 else 0) # s) r
      else Undef)"
  by (simp add: eval_node_def shl_int_1 and_pow_bit)

lemma eval_node_operator:
  "eval_node \<lparr>Node.type = OPERATOR, id = k\<rparr> bits (b # a # rest) r =
     (if length rest \<ge> STACK_MAX then Ret (- 1)
      else (case oper_rule k a b of
              Some v \<Rightarrow> Go (v # rest) (Some v)
            | None \<Rightarrow> (case r of None \<Rightarrow> Undef | Some v \<Rightarrow> Go (v # rest) r)))"
  by (simp add: eval_node_def Let_def split: option.splits)

lemma eval_node_not:
  "eval_node \<lparr>Node.type = NOT, id = k\<rparr> bits (v # rest) r = Go ((if v = 0 then 1 else 0) # rest) r"
  by (simp add: eval_node_def)

lemma oper_rule_bool: "oper_rule k a b = Some v \<Longrightarrow> v = 0 \<or> v = 1"
  by (auto simp: oper_rule_def split: if_splits)

lemma oper_rule_defined: "(oper_rule k a b = None) = (oper_rule k a' b' = None)"
  by (simp add: oper_rule_def)

subsubsection \<open>Two runs of the evaluator on the same nodes\<close>

lemma eval_node_sim:
  assumes "bool_stack s" "bool_stack s'" "length s = length s'" "bool_r r" "bool_r r'" "(r = None) = (r' = None)"
  shows "step_sim (eval_node n b s r) (eval_node n b' s' r')"
proof (cases "Node.type n")
  case VARIABLE
  with assms show ?thesis
    by (auto simp: eval_node_def step_sim_def bool_stack_def split: option.splits)
next
  case OPERATOR
  show ?thesis
  proof (cases s)
    case Nil
    with assms OPERATOR show ?thesis by (simp add: eval_node_def step_sim_def)
  next
    case (Cons x xs)
    note sx = this
    from assms sx obtain x' xs' where sx': "s' = x' # xs'" "length xs = length xs'"
      by (cases s') auto
    show ?thesis
    proof (cases xs)
      case Nil
      with assms OPERATOR sx sx' show ?thesis by (simp add: eval_node_def step_sim_def)
    next
      case (Cons y ys)
      with sx' obtain y' ys' where ys': "xs' = y' # ys'" "length ys = length ys'"
        by (cases xs') auto
      define q where "q = (case oper_rule (id n) y x of Some v \<Rightarrow> Some v | None \<Rightarrow> r)"
      define q' where "q' = (case oper_rule (id n) y' x' of Some v \<Rightarrow> Some v | None \<Rightarrow> r')"
      have d: "(oper_rule (id n) y x = None) = (oper_rule (id n) y' x' = None)"
        by (rule oper_rule_defined)
      have bq: "bool_r q"
        using assms(4) by (auto simp: q_def bool_r_def split: option.splits dest: oper_rule_bool)
      have bq': "bool_r q'"
        using assms(5) by (auto simp: q'_def bool_r_def split: option.splits dest: oper_rule_bool)
      have qq: "(q = None) = (q' = None)"
        using assms(6) d by (auto simp: q_def q'_def split: option.splits)
      have e: "eval_node n b s r =
          (if length ys \<ge> STACK_MAX then Ret (- 1)
           else (case q of None \<Rightarrow> Undef | Some v \<Rightarrow> Go (v # ys) q))"
        using OPERATOR sx Cons unfolding q_def by (simp add: eval_node_def Let_def)
      have e': "eval_node n b' s' r' =
          (if length ys \<ge> STACK_MAX then Ret (- 1)
           else (case q' of None \<Rightarrow> Undef | Some v \<Rightarrow> Go (v # ys') q'))"
        using OPERATOR sx' ys' unfolding q'_def by (simp add: eval_node_def Let_def)
      have bs: "bool_stack ys" "bool_stack ys'"
        using assms(1,2) sx sx' Cons ys' by (simp_all add: bool_stack_def)
      show ?thesis
      proof (cases q)
        case None
        with qq e e' show ?thesis by (simp add: step_sim_def)
      next
        case (Some v)
        with qq obtain v' where "q' = Some v'" by auto
        with Some e e' bq bq' bs ys' show ?thesis
          by (simp add: step_sim_def bool_stack_def bool_r_def)
      qed
    qed
  qed
next
  case NOT
  with assms show ?thesis
    by (cases s; cases s') (auto simp: eval_node_def step_sim_def bool_stack_def)
qed (use assms in \<open>auto simp: eval_node_def step_sim_def\<close>)

lemma evaluate_loop_sim:
  assumes "bool_stack s" "bool_stack s'" "length s = length s'" "bool_r r" "bool_r r'" "(r = None) = (r' = None)"
  shows "result_sim (evaluate_loop ns b s r) (evaluate_loop ns b' s' r')"
  using assms
proof (induction ns arbitrary: s s' r r')
  case Nil
  then show ?case
    by (cases s; cases s') (auto simp: result_sim_def bool_stack_def split: list.splits)
next
  case (Cons n ns)
  have "step_sim (eval_node n b s r) (eval_node n b' s' r')"
    using Cons.prems by (rule eval_node_sim)
  then show ?case
  proof (cases "eval_node n b s r")
    case (Go t q)
    with \<open>step_sim _ _\<close> obtain t' q' where g': "eval_node n b' s' r' = Go t' q'"
      and rel: "bool_stack t" "bool_stack t'" "length t = length t'" "bool_r q" "bool_r q'"
        "(q = None) = (q' = None)"
      by (auto simp: step_sim_def split: step.splits)
    from rel have "result_sim (evaluate_loop ns b t q) (evaluate_loop ns b' t' q')"
      by (rule Cons.IH)
    with Go g' show ?thesis by simp
  next
    case (Ret v)
    with \<open>step_sim _ _\<close> show ?thesis
      by (simp add: step_sim_def result_sim_def)
  next
    case Undef
    with \<open>step_sim _ _\<close> show ?thesis
      by (simp add: step_sim_def result_sim_def)
  qed
qed

lemma evaluate_sim: "result_sim (evaluate nodes b) (evaluate nodes b')"
  unfolding evaluate_def
  by (rule evaluate_loop_sim) (simp_all add: bool_stack_def bool_r_def)

subsubsection \<open>The rows of the table\<close>

lemma row_cells_text:
  "b + length vs \<le> 31 \<Longrightarrow>
   row_cells vs i b =
     Some (concat (map (\<lambda>(b, v). cell (length v) (if bit i b then CHR ''T'' else CHR ''F''))
                       (enumerate b vs)))"
proof (induction vs arbitrary: b)
  case Nil
  then show ?case by simp
next
  case (Cons v vs)
  from Cons.prems have "Suc b + length vs \<le> 31" and "b < 31" by simp_all
  then show ?case
    using Cons.IH [of "Suc b"]
    by (simp add: shl_int_1 and_pow_bit)
qed

lemma table_row_text:
  assumes "length vars \<le> 31" and "evaluate nodes i = Some 0 \<or> evaluate nodes i = Some 1"
  shows "table_row vars nodes i = Some (row_text vars nodes i)"
  using assms row_cells_text [of 0 vars i]
  by (auto simp: table_row_def row_text_def FT_def)

lemma table_rows_desc:
  assumes "m < 2 ^ 64 - 1"
    and "\<And>k. k \<le> m \<Longrightarrow> table_row vars nodes (of_nat k) = Some (f k)"
  shows "table_rows vars nodes (of_nat m) = map (\<lambda>k. Stdout (f k)) (rev [0..<Suc m])"
  using assms
proof (induction m)
  case 0
  have "table_row vars nodes 0 = Some (f 0)"
    using "0.prems"(2) [of 0] by simp
  then show ?case
    by (simp add: table_rows.simps [of vars nodes 0] table_rows.simps [of vars nodes "- 1"])
next
  case (Suc m)
  have ne: "(of_nat (Suc m) :: 64 word) \<noteq> - 1"
  proof
    assume "(of_nat (Suc m) :: 64 word) = - 1"
    then have "unat (of_nat (Suc m) :: 64 word) = unat (- 1 :: 64 word)" by (rule arg_cong)
    moreover have "unat (of_nat (Suc m) :: 64 word) = Suc m"
      using Suc.prems(1) by (simp add: unat_of_nat del: of_nat_Suc)
    moreover have "unat (- 1 :: 64 word) = 2 ^ 64 - 1"
      by (simp add: unsigned_minus_1_eq_mask mask_eq_exp_minus_1)
    ultimately show False
      using Suc.prems(1) by simp
  qed
  have row: "table_row vars nodes (of_nat (Suc m)) = Some (f (Suc m))"
    by (rule Suc.prems(2)) simp
  have ih: "table_rows vars nodes (of_nat m) = map (\<lambda>k. Stdout (f k)) (rev [0..<Suc m])"
    using Suc.prems by (intro Suc.IH) simp_all
  have "table_rows vars nodes (of_nat (Suc m))
      = Stdout (f (Suc m)) # table_rows vars nodes (of_nat (Suc m) - 1)"
    using ne row by (subst table_rows.simps) (simp del: of_nat_Suc)
  also have "(of_nat (Suc m) :: 64 word) - 1 = of_nat m" by simp
  finally show ?case using ih by simp
qed

lemma evaluate_bool:
  assumes "evaluate nodes b = Some v" "0 \<le> v"
  shows "evaluate nodes b' = Some 0 \<or> evaluate nodes b' = Some 1"
  using evaluate_sim [of nodes b b'] assms by (auto simp: result_sim_def split: if_splits)

lemma print_table_complete:
  assumes n: "length vars \<le> 30" and ev: "evaluate nodes 0 = Some v" and v: "0 \<le> v"
  shows "print_table vars nodes =
     Stdout (header vars) #
     map (\<lambda>k. Stdout (row_text vars nodes (of_nat k))) (rev [0..<2 ^ length vars])"
proof -
  have sh: "shl_int 1 (int (length vars)) = Some (2 ^ length vars)"
    using n by (simp add: shl_int_1)
  have pos: "(2::nat) ^ length vars - 1 < 2 ^ 64 - 1"
  proof -
    have "(2::nat) ^ length vars \<le> 2 ^ 30"
      using n by (intro power_increasing) simp_all
    then show ?thesis by simp
  qed
  have w: "(word_of_int (2 ^ length vars - 1) :: 64 word) = of_nat (2 ^ length vars - 1)"
    by (simp add: of_nat_diff)
  have rows: "table_row vars nodes (of_nat k) = Some (row_text vars nodes (of_nat k))" for k
    using n evaluate_bool [OF ev v] by (intro table_row_text) simp_all
  have "table_rows vars nodes (of_nat (2 ^ length vars - 1))
        = map (\<lambda>k. Stdout (row_text vars nodes (of_nat k))) (rev [0..<Suc (2 ^ length vars - 1)])"
    using pos rows by (rule table_rows_desc)
  then show ?thesis
    using ev v sh w by (simp add: print_table_def)
qed

lemma eval_node_ret: "eval_node n b s r = Ret v \<Longrightarrow> v = - 1 \<or> v = - 2"
  by (auto simp: eval_node_def Let_def split: type.splits if_splits option.splits list.splits)

lemma evaluate_loop_range:
  assumes "bool_stack s" "bool_r r" "evaluate_loop ns b s r = Some v"
  shows "v = - 3 \<or> v = - 2 \<or> v = - 1 \<or> v = 0 \<or> v = 1"
  using assms
proof (induction ns arbitrary: s r)
  case Nil
  then show ?case
    by (auto simp: bool_stack_def split: list.splits)
next
  case (Cons n ns)
  have sim: "step_sim (eval_node n b s r) (eval_node n b s r)"
    using Cons.prems(1,2) by (intro eval_node_sim) simp_all
  show ?case
  proof (cases "eval_node n b s r")
    case (Go t q)
    with sim have "bool_stack t" "bool_r q"
      by (simp_all add: step_sim_def)
    moreover from Go Cons.prems(3) have "evaluate_loop ns b t q = Some v" by simp
    ultimately show ?thesis by (rule Cons.IH)
  next
    case (Ret w)
    with Cons.prems(3) have "w = v" by simp
    with Ret eval_node_ret [of n b s r v] show ?thesis by auto
  next
    case Undef
    with Cons.prems(3) show ?thesis by simp
  qed
qed

lemma evaluate_range:
  "evaluate nodes b = Some v \<Longrightarrow> v = - 3 \<or> v = - 2 \<or> v = - 1 \<or> v = 0 \<or> v = 1"
  unfolding evaluate_def
  by (rule evaluate_loop_range [of "[]" None]) (simp_all add: bool_stack_def bool_r_def)

lemma cells_all:
  assumes "\<And>b. b < length vars \<Longrightarrow> bit i b = p"
  shows "concat (map (\<lambda>(b, v). cell (length v) (if bit i b then CHR ''T'' else CHR ''F''))
                 (enumerate 0 vars))
       = concat (map (\<lambda>v. cell (length v) (if p then CHR ''T'' else CHR ''F'')) vars)"
proof -
  have "map (\<lambda>(b, v). cell (length v) (if bit i b then CHR ''T'' else CHR ''F'')) (enumerate 0 vars)
      = map (\<lambda>(b, v). cell (length v) (if p then CHR ''T'' else CHR ''F'')) (enumerate 0 vars)"
    using assms by (intro map_cong refl) (auto simp: in_set_enumerate_eq)
  also have "\<dots> = map ((\<lambda>v. cell (length v) (if p then CHR ''T'' else CHR ''F'')) \<circ> snd) (enumerate 0 vars)"
    by (intro map_cong refl) auto
  also have "\<dots> = map (\<lambda>v. cell (length v) (if p then CHR ''T'' else CHR ''F'')) vars"
    by (simp flip: map_map)
  finally show ?thesis by simp
qed

lemma print_table_cases:
  "print_table vars nodes = [Undefined]
   \<or> (\<exists>msg. print_table vars nodes = [Stderr msg])
   \<or> print_table vars nodes = [Stdout (header vars), Undefined]
   \<or> print_table vars nodes =
        Stdout (header vars) #
        map (\<lambda>k. Stdout (row_text vars nodes (of_nat k))) (rev [0..<2 ^ length vars])"
proof (cases "evaluate nodes 0")
  case None
  then show ?thesis by (simp add: print_table_def)
next
  case (Some v)
  show ?thesis
  proof (cases "v < 0")
    case True
    with Some evaluate_range [of nodes 0 v] show ?thesis
      by (auto simp: print_table_def)
  next
    case False
    show ?thesis
    proof (cases "length vars \<le> 30")
      case True
      with Some False print_table_complete [of vars nodes v] show ?thesis by simp
    next
      case False
      then have "shl_int 1 (int (length vars)) = None"
        by (simp add: shl_int_1)
      with Some \<open>\<not> v < 0\<close> show ?thesis by (simp add: print_table_def)
    qed
  qed
qed

subsubsection \<open>The operator stack\<close>

lemma config_after_token_loop:
  "config_after k st inp = Some (st', inp') \<Longrightarrow> token_loop st inp = token_loop st' inp'"
proof (induction k arbitrary: st inp)
  case 0
  then show ?case by simp
next
  case (Suc k)
  from Suc.prems obtain t rest st1 where
    nt: "next_token inp = Some (t, rest)" and u: "Token.type t \<noteq> UNKNOWN"
    and h: "handle_token st t = Next st1"
    and c: "config_after k (st1\<lparr>first_token := False\<rparr>) rest = Some (st', inp')"
    by (auto split: option.splits if_splits outcome.splits)
  have "token_loop st inp = token_loop (st1\<lparr>first_token := False\<rparr>) rest"
    using nt u h by (subst token_loop.simps) simp
  also have "\<dots> = token_loop st' inp'"
    using c by (rule Suc.IH)
  finally show ?case .
qed

lemma output_operator:
  "Token.type x = OPERATOR \<or> Token.type x = NOT \<Longrightarrow>
   \<exists>n. output x st = Next (st\<lparr>node := node st @ [n]\<rparr>)"
  by (auto simp: output_def)

lemma pop_to_lparen_no_lparen:
  assumes "stack_ok ts" and "list_all (\<lambda>t. Token.type t \<noteq> LPAREN) ts"
  shows "\<exists>st'. pop_to_lparen ts st = Next st' \<and> stack st' = []"
  using assms
proof (induction ts arbitrary: st)
  case Nil
  then show ?case by simp
next
  case (Cons x xs)
  then have x: "Token.type x = OPERATOR \<or> Token.type x = NOT"
    by (auto simp: stack_ok_def)
  then obtain n where "output x st = Next (st\<lparr>node := node st @ [n]\<rparr>)"
    using output_operator by blast
  moreover have "\<exists>st'. pop_to_lparen xs (st\<lparr>node := node st @ [n]\<rparr>) = Next st' \<and> stack st' = []"
    using Cons.prems by (intro Cons.IH) (simp_all add: stack_ok_def)
  ultimately show ?case
    using Cons.prems(2) by simp
qed

lemma drain_lparen:
  assumes "stack_ok ts" and "list_ex (\<lambda>t. Token.type t = LPAREN) ts"
  shows "drain ts st = Cleanup (''error: mismatched parentheses'' @ nl)"
  using assms
proof (induction ts arbitrary: st)
  case Nil
  then show ?case by simp
next
  case (Cons x xs)
  show ?case
  proof (cases "Token.type x = LPAREN")
    case True
    then show ?thesis by simp
  next
    case False
    with Cons.prems have x: "Token.type x = OPERATOR \<or> Token.type x = NOT"
      and xs: "stack_ok xs" "list_ex (\<lambda>t. Token.type t = LPAREN) xs"
      by (auto simp: stack_ok_def)
    from x obtain n where "output x st = Next (st\<lparr>node := node st @ [n]\<rparr>)"
      using output_operator by blast
    with False Cons.IH [OF xs] show ?thesis by simp
  qed
qed

lemma pop_operators_stack_ok:
  "stack_ok ts \<Longrightarrow> pop_operators ts st = Next st' \<Longrightarrow> stack_ok (stack st')"
proof (induction ts arbitrary: st)
  case Nil
  then show ?case by (auto simp: stack_ok_def)
next
  case (Cons x xs)
  then show ?case
    by (auto simp: stack_ok_def split: if_splits outcome.splits)
qed

lemma pop_to_lparen_stack_ok:
  "stack_ok ts \<Longrightarrow> pop_to_lparen ts st = Next st' \<Longrightarrow> stack_ok (stack st')"
proof (induction ts arbitrary: st)
  case Nil
  then show ?case by (auto simp: stack_ok_def)
next
  case (Cons x xs)
  then show ?case
    by (auto simp: stack_ok_def split: if_splits outcome.splits)
qed

lemma output_stack: "output t st = Next st' \<Longrightarrow> stack st' = stack st \<and> slashvar_mode st' = slashvar_mode st \<and> first_token st' = first_token st"
  by (auto simp: output_def split: if_splits sum.splits)

lemma handle_token_stack_ok:
  assumes "stack_ok (stack st)" and "handle_token st t = Next st'"
  shows "stack_ok (stack st')"
proof (cases "slashvar_mode st")
  case True
  with assms show ?thesis
    by (auto simp: handle_token_def split: if_splits sum.splits)
next
  case False
  show ?thesis
  proof (cases "Token.type t")
    case OPERATOR
    with False assms(2) obtain st1 where p: "pop_operators (stack st) st = Next st1"
      and q: "PUSH t st1 = Next st'"
      by (auto simp: handle_token_def split: outcome.splits)
    from assms(1) p have "stack_ok (stack st1)" by (rule pop_operators_stack_ok)
    with q OPERATOR show ?thesis
      by (auto simp: PUSH_def stack_ok_def split: if_splits)
  next
    case RPAREN
    with False assms(2) obtain st1 where p: "pop_to_lparen (stack st) st = Next st1"
      and q: "st' = st1\<lparr>stack := tl (stack st1)\<rparr>" "stack st1 \<noteq> []"
      by (auto simp: handle_token_def split: outcome.splits if_splits)
    from assms(1) p have "stack_ok (stack st1)" by (rule pop_to_lparen_stack_ok)
    with q show ?thesis
      by (cases "stack st1") (auto simp: stack_ok_def)
  next
    case VARIABLE
    with False assms show ?thesis
      by (auto simp: handle_token_def dest: output_stack)
  qed (use False assms in \<open>auto simp: handle_token_def PUSH_def stack_ok_def split: if_splits\<close>)
qed

lemma config_after_stack_ok:
  "stack_ok (stack st) \<Longrightarrow> config_after k st inp = Some (st', inp') \<Longrightarrow> stack_ok (stack st')"
proof (induction k arbitrary: st inp)
  case 0
  then show ?case by simp
next
  case (Suc k)
  from Suc.prems(2) obtain t rest st1 where
    h: "handle_token st t = Next st1"
    and c: "config_after k (st1\<lparr>first_token := False\<rparr>) rest = Some (st', inp')"
    by (auto split: option.splits if_splits outcome.splits)
  from Suc.prems(1) h have "stack_ok (stack st1)" by (rule handle_token_stack_ok)
  then have "stack_ok (stack (st1\<lparr>first_token := False\<rparr>))" by simp
  then show ?case using c by (rule Suc.IH)
qed

subsubsection \<open>The tokenizer and the registry\<close>

lemma match_short_Some: "match_short ss q = Some s \<Longrightarrow> s \<noteq> [] \<and> take (length s) q = s"
  by (induction ss) (auto split: if_splits)

lemma next_token_shorter:
  assumes nt: "next_token inp = Some (t, rest)" and u: "Token.type t \<noteq> UNKNOWN"
  shows "length rest < length inp"
proof -
  define p where "p = drop (strspn inp WHITESPACE) inp"
  have lp: "length p \<le> length inp"
    by (simp add: p_def)
  from nt obtain c cs where pc: "p = c # cs"
    by (cases p) (auto simp: next_token_def p_def [symmetric])
  have sy: "length rest < length p" if "symbolic p = Some (t, rest)"
    using that pc
    by (auto simp: symbolic_def split: if_splits option.splits dest!: match_short_Some)
  have wt: "length rest < length p" if w: "word_token p = (t, rest)"
  proof -
    define len where "len = strspn p (LETTER @ NUMBER @ [CHR ''_'', CHR 0x27])"
    have le: "len \<le> length p"
      unfolding len_def strspn_def by (rule length_takeWhile_le)
    from w u have pos: "len \<noteq> 0"
      by (cases "len = 0") (auto simp: word_token_def len_def [symmetric])
    from w pos have "rest = drop len p"
      by (auto simp: word_token_def len_def [symmetric] Let_def split: if_splits)
    with le pos show ?thesis by simp
  qed
  have "length rest < length p"
    using nt u pc sy wt
    by (auto simp: next_token_def p_def [symmetric] Let_def split: if_splits option.splits)
  with lp show ?thesis by simp
qed

lemma var_scan_absent:
  "var_name \<notin> set vs \<Longrightarrow> i + length vs \<le> VAR_MAX \<Longrightarrow>
   var_scan vs var_name i = (False, i + length vs)"
  by (induction vs arbitrary: i) auto

lemma var_scan_present:
  "var_name \<in> set vs \<Longrightarrow> i + length vs \<le> VAR_MAX \<Longrightarrow>
   \<exists>j. var_scan vs var_name i = (True, j) \<and> i \<le> j \<and> j < i + length vs"
proof (induction vs arbitrary: i)
  case Nil
  then show ?case by simp
next
  case (Cons v vs)
  show ?case
  proof (cases "var_name = v")
    case True
    with Cons.prems show ?thesis by simp
  next
    case False
    with Cons.prems have "var_name \<in> set vs" "Suc i + length vs \<le> VAR_MAX" by simp_all
    from Cons.IH [OF this] obtain j where
      "var_scan vs var_name (Suc i) = (True, j)" "Suc i \<le> j" "j < Suc i + length vs"
      by blast
    with False Cons.prems(2) show ?thesis by simp
  qed
qed

lemma var_id_register:
  assumes "length (register var_name vars) \<le> VAR_MAX"
  shows "\<exists>i. var_id vars var_name = Inr (i, register var_name vars)
             \<and> i < length (register var_name vars)"
proof (cases "var_name \<in> set vars")
  case True
  with assms have "length vars \<le> VAR_MAX" by (simp add: register_def)
  with True var_scan_present [of var_name vars 0] obtain j where
    "var_scan vars var_name 0 = (True, j)" "j < length vars"
    by auto
  with True show ?thesis by (simp add: var_id_def register_def)
next
  case False
  with assms have l: "length vars < VAR_MAX" by (simp add: register_def)
  with False var_scan_absent [of var_name vars 0]
  have "var_scan vars var_name 0 = (False, length vars)" by simp
  with False l show ?thesis by (simp add: var_id_def register_def)
qed

lemma length_register: "length vars \<le> length (register var_name vars)"
  by (simp add: register_def)

lemma length_fold_register: "length vars \<le> length (fold register names vars)"
proof (induction names arbitrary: vars)
  case Nil
  then show ?case by simp
next
  case (Cons n ns)
  have "length vars \<le> length (register n vars)" by (rule length_register)
  also have "\<dots> \<le> length (fold register ns (register n vars))" by (rule Cons.IH)
  finally show ?case by simp
qed

subsubsection \<open>Slashvar lines\<close>

lemma slashvar_loop:
  assumes "slashvar_mode st" and "length inp \<le> k"
    and "list_all (\<lambda>t. Token.type t = VARIABLE) (tokens_upto k inp)"
    and "length (fold register (map text (tokens_upto k inp)) (variable st)) \<le> VAR_MAX"
  shows "token_loop st inp =
           Next (st\<lparr>variable := fold register (map text (tokens_upto k inp)) (variable st),
                    first_token := (if tokens_upto k inp = [] then first_token st else False)\<rparr>)"
  using assms
proof (induction k arbitrary: st inp)
  case 0
  then have "next_token inp = None" by (simp add: next_token_def)
  then show ?case by (subst token_loop.simps) simp
next
  case (Suc k)
  show ?case
  proof (cases "next_token inp")
    case None
    then show ?thesis by (subst token_loop.simps) simp
  next
    case (Some a)
    then obtain t rest where nt: "next_token inp = Some (t, rest)" by (cases a) auto
    from Suc.prems(3) nt have ty: "Token.type t = VARIABLE"
      by (auto split: if_splits)
    with nt have tk: "tokens_upto (Suc k) inp = t # tokens_upto k rest" by simp
    have "length rest < length inp" by (rule next_token_shorter [OF nt]) (simp add: ty)
    with Suc.prems(2) have lr: "length rest \<le> k" by simp
    let ?vs = "register (text t) (variable st)"
    have "length ?vs \<le> length (fold register (map text (tokens_upto k rest)) ?vs)"
      by (rule length_fold_register)
    with Suc.prems(4) tk have "length ?vs \<le> VAR_MAX" by simp
    then obtain i where vi: "var_id (variable st) (text t) = Inr (i, ?vs)"
      using var_id_register by blast
    let ?st1 = "st\<lparr>variable := ?vs, first_token := False\<rparr>"
    have h: "handle_token st t = Next (st\<lparr>variable := ?vs\<rparr>)"
      using Suc.prems(1) ty vi by (simp add: handle_token_def)
    have "token_loop ?st1 rest =
           Next (?st1\<lparr>variable := fold register (map text (tokens_upto k rest)) (variable ?st1),
                    first_token := (if tokens_upto k rest = [] then first_token ?st1 else False)\<rparr>)"
      using Suc.prems lr tk by (intro Suc.IH) simp_all
    moreover have "token_loop st inp = token_loop ?st1 rest"
      using nt ty h by (subst token_loop.simps) simp
    ultimately show ?thesis
      using tk by simp
  qed
qed

lemma directive_line:
  assumes tk: "tokens (c_string line) = slash # ts" and sl: "Token.type slash = SLASHVARS"
    and vs: "list_all (\<lambda>t. Token.type t = VARIABLE) ts"
    and le: "length (first_seen (map text ts)) \<le> VAR_MAX"
  shows "parse_line st line =
           Next (st\<lparr>variable := first_seen (map text ts), first_token := False,
                    slashvar_mode := True\<rparr>)"
proof -
  let ?inp = "c_string line"
  let ?start = "st\<lparr>first_token := True, slashvar_mode := False\<rparr>"
  from tk obtain k where k: "length ?inp = Suc k"
    by (cases "length ?inp") (auto simp: tokens_def)
  with tk sl obtain rest where nt: "next_token ?inp = Some (slash, rest)"
    and ts: "ts = tokens_upto k rest"
    by (auto simp: tokens_def split: option.splits if_splits)
  have "length rest < length ?inp" by (rule next_token_shorter [OF nt]) (simp add: sl)
  with k have lr: "length rest \<le> k" by simp
  let ?st1 = "?start\<lparr>variable := [], slashvar_mode := True, first_token := False\<rparr>"
  have h: "handle_token ?start slash = Next (?start\<lparr>variable := [], slashvar_mode := True\<rparr>)"
    using sl by (simp add: handle_token_def)
  have "token_loop ?st1 rest =
      Next (?st1\<lparr>variable := fold register (map text (tokens_upto k rest)) (variable ?st1),
                 first_token := (if tokens_upto k rest = [] then first_token ?st1 else False)\<rparr>)"
    using lr vs le ts by (intro slashvar_loop) (simp_all add: first_seen_def)
  moreover have "token_loop ?start ?inp = token_loop ?st1 rest"
    using nt sl h by (subst token_loop.simps) simp
  ultimately show ?thesis
    using ts by (simp add: parse_line_def first_seen_def)
qed

subsubsection \<open>The registry on an expression line\<close>

lemma var_id_appends:
  "var_id vars var_name = Inr (i, vs) \<Longrightarrow> \<exists>ws. vs = vars @ ws"
  by (auto simp: var_id_def split: prod.splits bool.splits if_splits)

lemma output_appends:
  "output t st = Next st' \<Longrightarrow>
   (\<exists>ws. variable st' = variable st @ ws) \<and> slashvar_mode st' = slashvar_mode st"
  by (auto simp: output_def split: if_splits sum.splits dest: var_id_appends)

lemma pop_operators_appends:
  "pop_operators ts st = Next st' \<Longrightarrow>
   (\<exists>ws. variable st' = variable st @ ws) \<and> slashvar_mode st' = slashvar_mode st"
proof (induction ts arbitrary: st)
  case Nil
  then show ?case by auto
next
  case (Cons x xs)
  show ?case
  proof (cases "Token.type x = OPERATOR \<or> Token.type x = NOT")
    case True
    with Cons.prems obtain st1 where o: "output x st = Next st1"
      and p: "pop_operators xs st1 = Next st'"
      by (auto split: outcome.splits)
    from output_appends [OF o] Cons.IH [OF p] show ?thesis by auto
  next
    case False
    with Cons.prems show ?thesis by auto
  qed
qed

lemma pop_to_lparen_appends:
  "pop_to_lparen ts st = Next st' \<Longrightarrow>
   (\<exists>ws. variable st' = variable st @ ws) \<and> slashvar_mode st' = slashvar_mode st"
proof (induction ts arbitrary: st)
  case Nil
  then show ?case by auto
next
  case (Cons x xs)
  show ?case
  proof (cases "Token.type x \<noteq> LPAREN")
    case True
    with Cons.prems obtain st1 where o: "output x st = Next st1"
      and p: "pop_to_lparen xs st1 = Next st'"
      by (auto split: outcome.splits)
    from output_appends [OF o] Cons.IH [OF p] show ?thesis by auto
  next
    case False
    with Cons.prems show ?thesis by auto
  qed
qed

lemma drain_appends:
  "drain ts st = Next st' \<Longrightarrow>
   (\<exists>ws. variable st' = variable st @ ws) \<and> slashvar_mode st' = slashvar_mode st"
proof (induction ts arbitrary: st)
  case Nil
  then show ?case by auto
next
  case (Cons x xs)
  from Cons.prems obtain st1 where o: "output x st = Next st1"
    and p: "drain xs st1 = Next st'"
    by (auto split: outcome.splits if_splits)
  from output_appends [OF o] Cons.IH [OF p] show ?case by auto
qed

lemma PUSH_variable:
  "PUSH t st = Next st' \<Longrightarrow> variable st' = variable st \<and> slashvar_mode st' = slashvar_mode st"
  by (auto simp: PUSH_def split: if_splits)

lemma handle_token_slashvar:
  "handle_token st t = Next st' \<Longrightarrow> slashvar_mode st \<Longrightarrow> slashvar_mode st'"
  by (auto simp: handle_token_def split: if_splits sum.splits)

lemma handle_token_appends:
  assumes "handle_token st t = Next st'" and "\<not> slashvar_mode st'"
  shows "\<exists>ws. variable st' = variable st @ ws"
proof -
  from assms have ns: "\<not> slashvar_mode st"
    using handle_token_slashvar by blast
  show ?thesis
  proof (cases "Token.type t")
    case VARIABLE
    with ns assms(1) show ?thesis
      by (auto simp: handle_token_def dest: output_appends)
  next
    case OPERATOR
    with ns assms(1) obtain st1 where "pop_operators (stack st) st = Next st1" "PUSH t st1 = Next st'"
      by (auto simp: handle_token_def split: outcome.splits)
    then show ?thesis
      by (auto dest!: pop_operators_appends PUSH_variable)
  next
    case RPAREN
    with ns assms(1) obtain st1 where "pop_to_lparen (stack st) st = Next st1"
      "st' = st1\<lparr>stack := tl (stack st1)\<rparr>"
      by (auto simp: handle_token_def split: outcome.splits if_splits)
    then show ?thesis
      by (auto dest!: pop_to_lparen_appends)
  next
    case SLASHVARS
    with ns assms show ?thesis
      by (auto simp: handle_token_def split: if_splits)
  qed (use ns assms(1) in \<open>auto simp: handle_token_def dest: PUSH_variable\<close>)
qed

lemma token_loop_slashvar:
  "slashvar_mode st \<Longrightarrow> token_loop st inp = Next st' \<Longrightarrow> slashvar_mode st'"
proof (induction st inp rule: token_loop.induct)
  case (1 st inp)
  show ?case
  proof (cases "next_token inp")
    case None
    with "1.prems" show ?thesis by (subst (asm) token_loop.simps) simp
  next
    case (Some a)
    obtain t rest where a: "a = (t, rest)" by (cases a)
    from "1.prems"(2) Some a obtain st1 where u: "Token.type t \<noteq> UNKNOWN"
      and h: "handle_token st t = Next st1"
      and l: "token_loop (st1\<lparr>first_token := False\<rparr>) rest = Next st'"
      by (subst (asm) token_loop.simps) (auto split: if_splits outcome.splits)
    from h "1.prems"(1) have "slashvar_mode st1" by (rule handle_token_slashvar)
    with Some a u h l show ?thesis
      by (intro "1.IH" [of a t rest st1]) simp_all
  qed
qed

lemma token_loop_appends:
  "token_loop st inp = Next st' \<Longrightarrow> \<not> slashvar_mode st' \<Longrightarrow>
   \<exists>ws. variable st' = variable st @ ws"
proof (induction st inp rule: token_loop.induct)
  case (1 st inp)
  show ?case
  proof (cases "next_token inp")
    case None
    with "1.prems"(1) show ?thesis by (subst (asm) token_loop.simps) simp
  next
    case (Some a)
    obtain t rest where a: "a = (t, rest)" by (cases a)
    from "1.prems"(1) Some a obtain st1 where u: "Token.type t \<noteq> UNKNOWN"
      and h: "handle_token st t = Next st1"
      and l: "token_loop (st1\<lparr>first_token := False\<rparr>) rest = Next st'"
      by (subst (asm) token_loop.simps) (auto split: if_splits outcome.splits)
    have "\<exists>ws. variable st' = variable (st1\<lparr>first_token := False\<rparr>) @ ws"
      using Some a u h l "1.prems"(2) by (intro "1.IH" [of a t rest st1]) simp_all
    then obtain ws where ws: "variable st' = variable st1 @ ws" by auto
    have "\<not> slashvar_mode st1"
      using token_loop_slashvar [of "st1\<lparr>first_token := False\<rparr>" rest st'] l "1.prems"(2)
      by auto
    with h obtain ws' where "variable st1 = variable st @ ws'"
      using handle_token_appends by blast
    with ws show ?thesis by simp
  qed
qed

lemma parse_line_appends:
  assumes "parse_line st line = Next st'" and "\<not> slashvar_mode st'"
  shows "\<exists>ws. variable st' = variable st @ ws"
proof -
  let ?start = "st\<lparr>first_token := True, slashvar_mode := False\<rparr>"
  from assms obtain st1 where l: "token_loop ?start (c_string line) = Next st1"
    and d: "drain (stack st1) st1 = Next st'" and n: "\<not> slashvar_mode st1"
    by (auto simp: parse_line_def split: outcome.splits if_splits)
  from token_loop_appends [OF l n] drain_appends [OF d] show ?thesis by auto
qed

subsubsection \<open>The ids of the nodes\<close>

lemma oper_id_short:
  "match_short short_op p = Some s \<Longrightarrow> 0 \<le> oper_id s \<and> oper_id s < 7"
  by (auto simp: short_op_def oper_id_def operator_def split: if_splits)

lemma oper_id_word:
  "list_ex (strcasecmp_eq w) operator \<Longrightarrow> 0 \<le> oper_id w \<and> oper_id w < 7"
  by (auto simp: oper_id_def operator_def short_op_def)

lemma next_token_ok:
  assumes "next_token inp = Some (t, rest)" and "Token.type t \<noteq> UNKNOWN"
  shows "token_ok t"
proof (cases "Token.type t = OPERATOR")
  case False
  with assms(2) show ?thesis by (simp add: token_ok_def)
next
  case True
  define p where "p = drop (strspn inp WHITESPACE) inp"
  from assms(1) obtain c cs where pc: "p = c # cs"
    by (cases p) (auto simp: next_token_def p_def [symmetric])
  have "symbolic p = Some (t, rest) \<or> word_token p = (t, rest)"
    using assms(1) True pc
    by (auto simp: next_token_def p_def [symmetric] Let_def split: if_splits option.splits)
  then show ?thesis
  proof
    assume "symbolic p = Some (t, rest)"
    with True obtain s where "match_short short_op p = Some s" "text t = s"
      by (auto simp: symbolic_def split: if_splits option.splits)
    with True oper_id_short [of p s] show ?thesis by (simp add: token_ok_def)
  next
    assume "word_token p = (t, rest)"
    with True have "list_ex (strcasecmp_eq (text t)) operator"
      by (auto simp: word_token_def Let_def split: if_splits)
    with True oper_id_word [of "text t"] show ?thesis by (simp add: token_ok_def)
  qed
qed

lemma var_scan_bound:
  "var_scan vs var_name i = (found, j) \<Longrightarrow> (if found then j < i + length vs else j \<le> i + length vs)"
proof (induction vs arbitrary: i)
  case Nil
  then show ?case by auto
next
  case (Cons v vs)
  show ?case
  proof (cases "i < VAR_MAX \<and> var_name \<noteq> v")
    case True
    with Cons.prems have "var_scan vs var_name (Suc i) = (found, j)" by simp
    from Cons.IH [OF this] show ?thesis by (auto split: if_splits)
  next
    case False
    with Cons.prems show ?thesis by (auto split: if_splits)
  qed
qed

lemma var_id_index:
  assumes "var_id vars var_name = Inr (i, vs)"
  shows "i < length vs \<and> (\<exists>ws. vs = vars @ ws)"
proof -
  obtain found j where s: "var_scan vars var_name 0 = (found, j)"
    by (cases "var_scan vars var_name 0")
  from var_scan_bound [OF s] s assms show ?thesis
    by (auto simp: var_id_def split: if_splits)
qed

lemma ids_ok_append_vars: "ids_ok vars nodes \<Longrightarrow> ids_ok (vars @ ws) nodes"
  by (induction nodes) (auto simp: ids_ok_def)

lemma ids_ok_snoc: "ids_ok vars (nodes @ [n]) = (ids_ok vars nodes \<and> ids_ok vars [n])"
  by (simp add: ids_ok_def)

lemma output_inv:
  assumes "token_ok t" and "ids_ok (variable st) (node st)" and "output t st = Next st'"
  shows "ids_ok (variable st') (node st') \<and> stack st' = stack st
         \<and> first_token st' = first_token st"
proof (cases "Token.type t = VARIABLE")
  case True
  with assms(3) obtain i vs where v: "var_id (variable st) (text t) = Inr (i, vs)"
    and st': "st' = st\<lparr>variable := vs, node := node st @ [\<lparr>Node.type = VARIABLE, id = int i\<rparr>]\<rparr>"
    by (auto simp: output_def split: sum.splits)
  from var_id_index [OF v] obtain ws where i: "i < length vs" and vs: "vs = variable st @ ws"
    by auto
  from assms(2) vs have "ids_ok vs (node st)" by (simp add: ids_ok_append_vars)
  with i st' show ?thesis by (simp add: ids_ok_snoc) (simp add: ids_ok_def)
next
  case False
  with assms show ?thesis
    by (auto simp: output_def ids_ok_snoc token_ok_def split: if_splits) (auto simp: ids_ok_def)
qed

lemma pop_operators_inv:
  assumes "list_all token_ok ts" and "ids_ok (variable st) (node st)"
    and "pop_operators ts st = Next st'"
  shows "ids_ok (variable st') (node st') \<and> list_all token_ok (stack st')
         \<and> first_token st' = first_token st"
  using assms
proof (induction ts arbitrary: st)
  case Nil
  then show ?case by auto
next
  case (Cons x xs)
  show ?case
  proof (cases "Token.type x = OPERATOR \<or> Token.type x = NOT")
    case True
    with Cons.prems(3) obtain st1 where o: "output x st = Next st1"
      and p: "pop_operators xs st1 = Next st'"
      by (auto split: outcome.splits)
    from Cons.prems(1) have x: "token_ok x" and xs: "list_all token_ok xs" by simp_all
    from output_inv [OF x Cons.prems(2) o] Cons.IH [OF xs _ p] show ?thesis by simp
  next
    case False
    with Cons.prems show ?thesis by auto
  qed
qed

lemma pop_to_lparen_inv:
  assumes "list_all token_ok ts" and "ids_ok (variable st) (node st)"
    and "pop_to_lparen ts st = Next st'"
  shows "ids_ok (variable st') (node st') \<and> list_all token_ok (stack st')
         \<and> first_token st' = first_token st"
  using assms
proof (induction ts arbitrary: st)
  case Nil
  then show ?case by auto
next
  case (Cons x xs)
  show ?case
  proof (cases "Token.type x \<noteq> LPAREN")
    case True
    with Cons.prems(3) obtain st1 where o: "output x st = Next st1"
      and p: "pop_to_lparen xs st1 = Next st'"
      by (auto split: outcome.splits)
    from Cons.prems(1) have x: "token_ok x" and xs: "list_all token_ok xs" by simp_all
    from output_inv [OF x Cons.prems(2) o] Cons.IH [OF xs _ p] show ?thesis by simp
  next
    case False
    with Cons.prems show ?thesis by auto
  qed
qed

lemma drain_inv:
  assumes "list_all token_ok ts" and "ids_ok (variable st) (node st)"
    and "drain ts st = Next st'"
  shows "ids_ok (variable st') (node st')"
  using assms
proof (induction ts arbitrary: st)
  case Nil
  then show ?case by auto
next
  case (Cons x xs)
  from Cons.prems(3) obtain st1 where o: "output x st = Next st1"
    and p: "drain xs st1 = Next st'"
    by (auto split: outcome.splits if_splits)
  from Cons.prems(1) have x: "token_ok x" and xs: "list_all token_ok xs" by simp_all
  from output_inv [OF x Cons.prems(2) o] Cons.IH [OF xs _ p] show ?case by simp
qed

lemma handle_token_inv:
  assumes inv: "parser_inv st" and t: "token_ok t" and h: "handle_token st t = Next st'"
  shows "parser_inv (st'\<lparr>first_token := False\<rparr>)"
proof -
  from inv have ids: "ids_ok (variable st) (node st)" and tk: "list_all token_ok (stack st)"
    and so: "stack_ok (stack st)"
    by (simp_all add: parser_inv_def)
  have so': "stack_ok (stack st')"
    using so h by (rule handle_token_stack_ok)
  have "ids_ok (variable st') (node st') \<and> list_all token_ok (stack st')"
  proof (cases "slashvar_mode st")
    case True
    with h obtain i vs where v: "var_id (variable st) (text t) = Inr (i, vs)"
      and st': "st' = st\<lparr>variable := vs\<rparr>"
      by (auto simp: handle_token_def split: if_splits sum.splits)
    from var_id_index [OF v] ids tk st' show ?thesis
      by (auto simp: ids_ok_append_vars)
  next
    case False
    show ?thesis
    proof (cases "Token.type t")
      case VARIABLE
      with False h have "output t st = Next st'" by (simp add: handle_token_def)
      from output_inv [OF t ids this] tk show ?thesis by simp
    next
      case OPERATOR
      with False h obtain st1 where p: "pop_operators (stack st) st = Next st1"
        and q: "PUSH t st1 = Next st'"
        by (auto simp: handle_token_def split: outcome.splits)
      from pop_operators_inv [OF tk ids p] q t show ?thesis
        by (auto simp: PUSH_def split: if_splits)
    next
      case RPAREN
      with False h obtain st1 where p: "pop_to_lparen (stack st) st = Next st1"
        and q: "st' = st1\<lparr>stack := tl (stack st1)\<rparr>" "stack st1 \<noteq> []"
        by (auto simp: handle_token_def split: outcome.splits if_splits)
      from pop_to_lparen_inv [OF tk ids p] q show ?thesis
        by (cases "stack st1") auto
    next
      case SLASHVARS
      with False h have "first_token st" "st' = st\<lparr>variable := [], slashvar_mode := True\<rparr>"
        by (auto simp: handle_token_def split: if_splits)
      with inv tk show ?thesis
        by (simp add: parser_inv_def ids_ok_def)
    next
      case UNKNOWN
      with False h ids tk show ?thesis by (simp add: handle_token_def)
    next
      case LPAREN
      with False h ids tk t show ?thesis
        by (auto simp: handle_token_def PUSH_def split: if_splits)
    next
      case NOT
      with False h ids tk t show ?thesis
        by (auto simp: handle_token_def PUSH_def split: if_splits)
    qed
  qed
  with so' show ?thesis by (simp add: parser_inv_def)
qed

lemma token_loop_inv:
  "parser_inv st \<Longrightarrow> token_loop st inp = Next st' \<Longrightarrow> parser_inv st'"
proof (induction st inp rule: token_loop.induct)
  case (1 st inp)
  show ?case
  proof (cases "next_token inp")
    case None
    with "1.prems" show ?thesis by (subst (asm) token_loop.simps) simp
  next
    case (Some a)
    obtain t rest where a: "a = (t, rest)" by (cases a)
    from "1.prems"(2) Some a obtain st1 where u: "Token.type t \<noteq> UNKNOWN"
      and h: "handle_token st t = Next st1"
      and l: "token_loop (st1\<lparr>first_token := False\<rparr>) rest = Next st'"
      by (subst (asm) token_loop.simps) (auto split: if_splits outcome.splits)
    from Some a u have "token_ok t" by (intro next_token_ok [of inp t rest]) simp_all
    with "1.prems"(1) have "parser_inv (st1\<lparr>first_token := False\<rparr>)"
      using h by (rule handle_token_inv)
    with Some a u h l show ?thesis
      by (intro "1.IH" [of a t rest st1]) simp_all
  qed
qed

lemma parse_line_ids_ok:
  assumes "node st = []" and "stack st = []" and "parse_line st line = Next st'"
  shows "ids_ok (variable st') (node st')"
proof -
  let ?start = "st\<lparr>first_token := True, slashvar_mode := False\<rparr>"
  have start: "parser_inv ?start"
    using assms(1,2) by (simp add: parser_inv_def ids_ok_def stack_ok_def)
  show ?thesis
  proof (cases "token_loop ?start (c_string line)")
    case (Next st1)
    have "parser_inv st1" using start Next by (rule token_loop_inv)
    then have i: "ids_ok (variable st1) (node st1)" and t: "list_all token_ok (stack st1)"
      by (simp_all add: parser_inv_def)
    show ?thesis
    proof (cases "slashvar_mode st1")
      case True
      with Next assms(3) have "st' = st1" by (simp add: parse_line_def)
      with i show ?thesis by simp
    next
      case False
      with Next assms(3) have "drain (stack st1) st1 = Next st'" by (simp add: parse_line_def)
      with t i show ?thesis by (rule drain_inv)
    qed
  next
    case (Cleanup msg)
    with assms(3) show ?thesis by (simp add: parse_line_def)
  next
    case (Die msg)
    with assms(3) show ?thesis by (simp add: parse_line_def)
  qed
qed

lemma eval_node_defined:
  assumes "ids_ok vars [n]" and "length vars \<le> 31"
  shows "eval_node n b s r \<noteq> Undef"
proof (cases "Node.type n")
  case VARIABLE
  with assms show ?thesis
    by (simp add: eval_node_def ids_ok_def shl_int_1)
next
  case OPERATOR
  with assms have "0 \<le> id n \<and> id n < 7"
    by (simp add: ids_ok_def)
  then have "id n = 0 \<or> id n = 1 \<or> id n = 2 \<or> id n = 3 \<or> id n = 4 \<or> id n = 5 \<or> id n = 6"
    by arith
  then have d: "oper_rule (id n) a c \<noteq> None" for a c
    by (elim disjE) (simp_all add: oper_rule_def oper_defs)
  have r: "(case oper_rule (id n) a c of Some v \<Rightarrow> Some v | None \<Rightarrow> r) \<noteq> None" for a c
    using d [of a c] by (cases "oper_rule (id n) a c") auto
  show ?thesis
  proof (cases s)
    case Nil
    with OPERATOR show ?thesis by (simp add: eval_node_def)
  next
    case (Cons x xs)
    show ?thesis
    proof (cases xs)
      case Nil
      with Cons OPERATOR show ?thesis by (simp add: eval_node_def)
    next
      case (Cons y ys)
      with \<open>s = x # xs\<close> OPERATOR r [of y x] show ?thesis
        by (auto simp: eval_node_def Let_def split: option.splits)
    qed
  qed
qed (auto simp: eval_node_def split: list.splits)

lemma evaluate_loop_defined:
  "ids_ok vars ns \<Longrightarrow> length vars \<le> 31 \<Longrightarrow> evaluate_loop ns b s r \<noteq> None"
proof (induction ns arbitrary: s r)
  case Nil
  then show ?case by (simp split: list.splits)
next
  case (Cons n ns)
  from Cons.prems have n: "ids_ok vars [n]" and ns: "ids_ok vars ns"
    by (simp_all add: ids_ok_def)
  from n Cons.prems(2) have "eval_node n b s r \<noteq> Undef" by (rule eval_node_defined)
  with Cons.IH [OF ns Cons.prems(2)] show ?case
    by (cases "eval_node n b s r") simp_all
qed

subsubsection \<open>The stack pointer of the evaluator on the nodes of an expression\<close>

lemma depth_after_append:
  "depth_after (ns @ ms) sp = (case depth_after ns sp of None \<Rightarrow> None | Some d \<Rightarrow> depth_after ms d)"
  by (induction ns arbitrary: sp) (auto split: type.splits)

lemma separated_count_top:
  "separated ts \<Longrightarrow>
   2 * count_ops ts \<le> length ts + (case ts of [] \<Rightarrow> 0
                                     | t # _ \<Rightarrow> if Token.type t = OPERATOR then 1 else 0)"
proof (induction ts)
  case Nil
  then show ?case by (simp add: count_ops_def)
next
  case (Cons t ts)
  then have sep: "separated ts" by (cases ts) auto
  note ih = Cons.IH [OF sep]
  show ?case
  proof (cases ts)
    case Nil
    then show ?thesis by (simp add: count_ops_def)
  next
    case (Cons u us)
    with Cons.prems ih show ?thesis
      by (auto simp: count_ops_def split: if_splits)
  qed
qed

lemma separated_count: "separated ts \<Longrightarrow> 2 * count_ops ts \<le> length ts + 1"
  using separated_count_top [of ts] by (auto split: list.splits if_splits)

lemma eval_depth_one:
  assumes "depth_after ns (length s) = Some 1" and "bool_stack s" and "bool_r r"
  shows "evaluate_loop ns b s r = None \<or> evaluate_loop ns b s r = Some 0
         \<or> evaluate_loop ns b s r = Some 1"
  using assms
proof (induction ns arbitrary: s r)
  case Nil
  then show ?case
    by (cases s) (auto simp: bool_stack_def)
next
  case (Cons n ns)
  have sim: "step_sim (eval_node n b s r) (eval_node n b s r)"
    using Cons.prems(2,3) by (intro eval_node_sim) simp_all
  show ?case
  proof (cases "eval_node n b s r")
    case (Go t q)
    with sim have bt: "bool_stack t" "bool_r q"
      by (simp_all add: step_sim_def)
    have "depth_after ns (length t) = Some 1"
    proof (cases "Node.type n")
      case VARIABLE
      with Go Cons.prems(1) show ?thesis
        by (auto simp: eval_node_def split: if_splits option.splits)
    next
      case OPERATOR
      with Go Cons.prems(1) show ?thesis
        by (cases s; cases "tl s")
          (auto simp: eval_node_def Let_def split: if_splits option.splits)
    next
      case NOT
      with Go Cons.prems(1) show ?thesis
        by (cases s) (auto simp: eval_node_def split: if_splits)
    qed (use Go Cons.prems(1) in \<open>auto simp: eval_node_def\<close>)
    from Cons.IH [OF this bt] Go show ?thesis by simp
  next
    case (Ret v)
    have False
    proof (cases "Node.type n")
      case VARIABLE
      with Ret Cons.prems(1) show ?thesis
        by (auto simp: eval_node_def split: if_splits option.splits)
    next
      case OPERATOR
      with Ret Cons.prems(1) show ?thesis
        by (cases s; cases "tl s")
          (auto simp: eval_node_def Let_def split: if_splits option.splits)
    next
      case NOT
      with Ret Cons.prems(1) show ?thesis
        by (cases s) (auto simp: eval_node_def split: if_splits)
    qed (use Ret in \<open>auto simp: eval_node_def\<close>)
    then show ?thesis ..
  next
    case Undef
    then show ?thesis by simp
  qed
qed

lemma output_operator_depth:
  assumes "Token.type x = OPERATOR" and "depth_after (node st) 0 = Some (Suc (Suc d))"
    and "d < STACK_MAX"
  shows "\<exists>st'. output x st = Next st' \<and> depth_after (node st') 0 = Some (Suc d)
              \<and> slashvar_mode st' = slashvar_mode st"
  using assms by (simp add: output_def depth_after_append)

lemma output_not_depth:
  assumes "Token.type x = NOT" and "depth_after (node st) 0 = Some (Suc d)"
  shows "\<exists>st'. output x st = Next st' \<and> depth_after (node st') 0 = Some (Suc d)
              \<and> slashvar_mode st' = slashvar_mode st"
  using assms by (simp add: output_def depth_after_append)

lemma count_ops_bound:
  assumes "separated ts" and "length ts \<le> STACK_MAX"
  shows "count_ops ts < STACK_MAX"
  using separated_count [OF assms(1)] assms(2) by (simp add: STACK_MAX_def)

lemma count_ops_Cons:
  "count_ops (x # xs) = (if Token.type x = OPERATOR then Suc (count_ops xs) else count_ops xs)"
  by (simp add: count_ops_def)

lemma separated_Cons: "separated (x # xs) \<Longrightarrow> separated xs"
  by (cases xs) auto

lemma pop_operators_depth:
  assumes "stack_ok ts" and "separated ts" and "length ts \<le> STACK_MAX"
    and "depth_after (node st) 0 = Some (Suc (count_ops ts))"
  shows "\<exists>st'. pop_operators ts st = Next st'
              \<and> depth_after (node st') 0 = Some (Suc (count_ops (stack st')))
              \<and> separated (stack st') \<and> stack_ok (stack st')
              \<and> length (stack st') \<le> STACK_MAX
              \<and> (case stack st' of [] \<Rightarrow> True | u # _ \<Rightarrow> Token.type u = LPAREN)
              \<and> slashvar_mode st' = slashvar_mode st"
  using assms
proof (induction ts arbitrary: st)
  case Nil
  then show ?case by (simp add: stack_ok_def)
next
  case (Cons x xs)
  from Cons.prems have xs: "stack_ok xs" "separated xs" "length xs \<le> STACK_MAX"
    by (auto simp: stack_ok_def dest: separated_Cons)
  from Cons.prems(1) have ty: "Token.type x = OPERATOR \<or> Token.type x = NOT \<or> Token.type x = LPAREN"
    by (simp add: stack_ok_def)
  then show ?case
  proof (elim disjE)
    assume op: "Token.type x = OPERATOR"
    have "count_ops xs < STACK_MAX" using xs(2,3) by (rule count_ops_bound)
    with op Cons.prems(4) obtain st1 where o: "output x st = Next st1"
      and d: "depth_after (node st1) 0 = Some (Suc (count_ops xs))"
      and sl: "slashvar_mode st1 = slashvar_mode st"
      using output_operator_depth [of x st "count_ops xs"] by (auto simp: count_ops_Cons)
    from Cons.IH [OF xs d] o op sl show ?thesis by auto
  next
    assume nt: "Token.type x = NOT"
    with Cons.prems(4) obtain st1 where o: "output x st = Next st1"
      and d: "depth_after (node st1) 0 = Some (Suc (count_ops xs))"
      and sl: "slashvar_mode st1 = slashvar_mode st"
      using output_not_depth [of x st "count_ops xs"] by (auto simp: count_ops_Cons)
    from Cons.IH [OF xs d] o nt sl show ?thesis by auto
  next
    assume lp: "Token.type x = LPAREN"
    with Cons.prems show ?thesis by simp
  qed
qed

lemma pop_to_lparen_depth:
  assumes "stack_ok ts" and "separated ts" and "length ts \<le> STACK_MAX"
    and "depth_after (node st) 0 = Some (Suc (count_ops ts))"
  shows "\<exists>st'. pop_to_lparen ts st = Next st'
              \<and> depth_after (node st') 0 = Some (Suc (count_ops (stack st')))
              \<and> separated (stack st') \<and> stack_ok (stack st')
              \<and> length (stack st') \<le> STACK_MAX
              \<and> (case stack st' of [] \<Rightarrow> True | u # _ \<Rightarrow> Token.type u = LPAREN)
              \<and> slashvar_mode st' = slashvar_mode st"
  using assms
proof (induction ts arbitrary: st)
  case Nil
  then show ?case by (simp add: stack_ok_def)
next
  case (Cons x xs)
  from Cons.prems have xs: "stack_ok xs" "separated xs" "length xs \<le> STACK_MAX"
    by (auto simp: stack_ok_def dest: separated_Cons)
  from Cons.prems(1) have ty: "Token.type x = OPERATOR \<or> Token.type x = NOT \<or> Token.type x = LPAREN"
    by (simp add: stack_ok_def)
  then show ?case
  proof (elim disjE)
    assume op: "Token.type x = OPERATOR"
    have "count_ops xs < STACK_MAX" using xs(2,3) by (rule count_ops_bound)
    with op Cons.prems(4) obtain st1 where o: "output x st = Next st1"
      and d: "depth_after (node st1) 0 = Some (Suc (count_ops xs))"
      and sl: "slashvar_mode st1 = slashvar_mode st"
      using output_operator_depth [of x st "count_ops xs"] by (auto simp: count_ops_Cons)
    from Cons.IH [OF xs d] o op sl show ?thesis by auto
  next
    assume nt: "Token.type x = NOT"
    with Cons.prems(4) obtain st1 where o: "output x st = Next st1"
      and d: "depth_after (node st1) 0 = Some (Suc (count_ops xs))"
      and sl: "slashvar_mode st1 = slashvar_mode st"
      using output_not_depth [of x st "count_ops xs"] by (auto simp: count_ops_Cons)
    from Cons.IH [OF xs d] o nt sl show ?thesis by auto
  next
    assume lp: "Token.type x = LPAREN"
    with Cons.prems show ?thesis by simp
  qed
qed

lemma drain_depth:
  assumes "stack_ok ts" and "separated ts" and "length ts \<le> STACK_MAX"
    and "depth_after (node st) 0 = Some (Suc (count_ops ts))"
    and "drain ts st = Next st'"
  shows "depth_after (node st') 0 = Some 1"
  using assms
proof (induction ts arbitrary: st)
  case Nil
  then show ?case by (auto simp: count_ops_def)
next
  case (Cons x xs)
  from Cons.prems have xs: "stack_ok xs" "separated xs" "length xs \<le> STACK_MAX"
    by (auto simp: stack_ok_def dest: separated_Cons)
  from Cons.prems(5) have nl: "Token.type x \<noteq> LPAREN"
    by (auto split: if_splits)
  with Cons.prems(1) have ty: "Token.type x = OPERATOR \<or> Token.type x = NOT"
    by (simp add: stack_ok_def)
  then show ?case
  proof
    assume op: "Token.type x = OPERATOR"
    have "count_ops xs < STACK_MAX" using xs(2,3) by (rule count_ops_bound)
    with op Cons.prems(4) obtain st1 where o: "output x st = Next st1"
      and d: "depth_after (node st1) 0 = Some (Suc (count_ops xs))"
      using output_operator_depth [of x st "count_ops xs"] by (auto simp: count_ops_Cons)
    from o nl Cons.prems(5) have "drain xs st1 = Next st'" by simp
    from Cons.IH [OF xs d this] show ?thesis .
  next
    assume nt: "Token.type x = NOT"
    with Cons.prems(4) obtain st1 where o: "output x st = Next st1"
      and d: "depth_after (node st1) 0 = Some (Suc (count_ops xs))"
      using output_not_depth [of x st "count_ops xs"] by (auto simp: count_ops_Cons)
    from o nl Cons.prems(5) have "drain xs st1 = Next st'" by simp
    from Cons.IH [OF xs d this] show ?thesis .
  qed
qed

lemma handle_token_balanced:
  assumes ns: "\<not> slashvar_mode st" and bal: "balanced e st"
    and h: "handle_token st t = Next st1"
    and form: "expression_form e (Token.type t # tys)"
  shows "\<exists>e'. balanced e' st1 \<and> \<not> slashvar_mode st1 \<and> expression_form e' tys"
proof -
  from bal have sep: "separated (stack st)" and ok: "stack_ok (stack st)"
    and len: "length (stack st) \<le> STACK_MAX"
    and dep: "depth_after (node st) 0 = Some (count_ops (stack st) + (if e = OPER then 1 else 0))"
    by (simp_all add: balanced_def)
  show ?thesis
  proof (cases "Token.type t")
    case VARIABLE
    with form have e: "e = EXPR" and f: "expression_form OPER tys" by simp_all
    from VARIABLE ns h have o: "output t st = Next st1" by (simp add: handle_token_def)
    with VARIABLE obtain i vs where
      st1: "st1 = st\<lparr>variable := vs, node := node st @ [\<lparr>Node.type = VARIABLE, id = int i\<rparr>]\<rparr>"
      by (auto simp: output_def split: sum.splits)
    have "count_ops (stack st) < STACK_MAX" using sep len by (rule count_ops_bound)
    with dep e st1 have "depth_after (node st1) 0 = Some (count_ops (stack st1) + 1)"
      by (simp add: depth_after_append)
    with sep ok len st1 ns f show ?thesis
      by (intro exI [of _ OPER]) (simp add: balanced_def)
  next
    case NOT
    with form have e: "e = EXPR" and f: "expression_form EXPR tys" by simp_all
    from NOT ns h have st1: "st1 = st\<lparr>stack := t # stack st\<rparr>" and l: "length (stack st) < STACK_MAX"
      by (auto simp: handle_token_def PUSH_def split: if_splits)
    have "separated (t # stack st)" using sep NOT by (cases "stack st") auto
    with dep e st1 l ok NOT ns f show ?thesis
      by (intro exI [of _ EXPR]) (simp add: balanced_def count_ops_Cons stack_ok_def)
  next
    case LPAREN
    with form have e: "e = EXPR" and f: "expression_form EXPR tys" by simp_all
    from LPAREN ns h have st1: "st1 = st\<lparr>stack := t # stack st\<rparr>" and l: "length (stack st) < STACK_MAX"
      by (auto simp: handle_token_def PUSH_def split: if_splits)
    have "separated (t # stack st)" using sep LPAREN by (cases "stack st") auto
    with dep e st1 l ok LPAREN ns f show ?thesis
      by (intro exI [of _ EXPR]) (simp add: balanced_def count_ops_Cons stack_ok_def)
  next
    case OPERATOR
    with form have e: "e = OPER" and f: "expression_form EXPR tys" by simp_all
    from dep e have "depth_after (node st) 0 = Some (Suc (count_ops (stack st)))" by simp
    from pop_operators_depth [OF ok sep len this] obtain st2 where
      p: "pop_operators (stack st) st = Next st2"
      and d2: "depth_after (node st2) 0 = Some (Suc (count_ops (stack st2)))"
      and s2: "separated (stack st2)" "stack_ok (stack st2)" "length (stack st2) \<le> STACK_MAX"
      and top: "case stack st2 of [] \<Rightarrow> True | u # _ \<Rightarrow> Token.type u = LPAREN"
      and sl: "slashvar_mode st2 = slashvar_mode st"
      by blast
    from OPERATOR ns h p have st1: "st1 = st2\<lparr>stack := t # stack st2\<rparr>"
      and l: "length (stack st2) < STACK_MAX"
      by (auto simp: handle_token_def PUSH_def split: if_splits)
    have "separated (t # stack st2)" using s2(1) top by (cases "stack st2") auto
    with d2 st1 l s2 OPERATOR ns sl f show ?thesis
      by (intro exI [of _ EXPR]) (simp add: balanced_def count_ops_Cons stack_ok_def)
  next
    case RPAREN
    with form have e: "e = OPER" and f: "expression_form OPER tys" by simp_all
    from dep e have "depth_after (node st) 0 = Some (Suc (count_ops (stack st)))" by simp
    from pop_to_lparen_depth [OF ok sep len this] obtain st2 where
      p: "pop_to_lparen (stack st) st = Next st2"
      and d2: "depth_after (node st2) 0 = Some (Suc (count_ops (stack st2)))"
      and s2: "separated (stack st2)" "stack_ok (stack st2)" "length (stack st2) \<le> STACK_MAX"
      and top: "case stack st2 of [] \<Rightarrow> True | u # _ \<Rightarrow> Token.type u = LPAREN"
      and sl: "slashvar_mode st2 = slashvar_mode st"
      by blast
    from RPAREN ns h p obtain u us where st1: "st1 = st2\<lparr>stack := us\<rparr>"
      and us: "stack st2 = u # us"
      by (cases "stack st2") (auto simp: handle_token_def split: if_splits)
    from top us have u: "Token.type u = LPAREN" by simp
    from s2(1) us have "separated us" by (auto dest: separated_Cons)
    with d2 st1 us u s2 ns sl f show ?thesis
      by (intro exI [of _ OPER]) (simp add: balanced_def count_ops_Cons stack_ok_def)
  qed (use form in simp_all)
qed

lemma expression_loop:
  assumes "\<not> slashvar_mode st" and "length inp \<le> k"
    and "expression_form e (map Token.type (tokens_upto k inp))"
    and "balanced e st" and "token_loop st inp = Next st'"
  shows "balanced OPER st' \<and> \<not> slashvar_mode st'"
  using assms
proof (induction k arbitrary: st inp e)
  case 0
  then have "next_token inp = None" by (simp add: next_token_def)
  with "0.prems"(5) have "st' = st" by (subst (asm) token_loop.simps) simp
  moreover from "0.prems"(3) have "e = OPER" by simp
  ultimately show ?case using "0.prems" by simp
next
  case (Suc k)
  show ?case
  proof (cases "next_token inp")
    case None
    with Suc.prems(5) have "st' = st" by (subst (asm) token_loop.simps) simp
    moreover from Suc.prems(3) None have "e = OPER" by simp
    ultimately show ?thesis using Suc.prems by simp
  next
    case (Some a)
    obtain t rest where a: "a = (t, rest)" by (cases a)
    with Some have nt: "next_token inp = Some (t, rest)" by simp
    from Suc.prems(3) nt have u: "Token.type t \<noteq> UNKNOWN"
      by (auto split: if_splits)
    with nt have tk: "tokens_upto (Suc k) inp = t # tokens_upto k rest" by simp
    have "length rest < length inp" by (rule next_token_shorter [OF nt u])
    with Suc.prems(2) have lr: "length rest \<le> k" by simp
    from Suc.prems(5) nt u obtain st1 where h: "handle_token st t = Next st1"
      and l: "token_loop (st1\<lparr>first_token := False\<rparr>) rest = Next st'"
      by (subst (asm) token_loop.simps) (auto split: outcome.splits)
    from Suc.prems(3) tk
    have "expression_form e (Token.type t # map Token.type (tokens_upto k rest))" by simp
    from handle_token_balanced [OF Suc.prems(1,4) h this] obtain e' where
      b: "balanced e' st1" and s: "\<not> slashvar_mode st1"
      and f: "expression_form e' (map Token.type (tokens_upto k rest))"
      by blast
    from b have b': "balanced e' (st1\<lparr>first_token := False\<rparr>)" by (simp add: balanced_def)
    from s have s': "\<not> slashvar_mode (st1\<lparr>first_token := False\<rparr>)" by simp
    from s' lr f b' l show ?thesis by (rule Suc.IH)
  qed
qed

lemma expression_line_depth:
  assumes "node st = []" and "stack st = []"
    and "expression_form EXPR (map Token.type (tokens (c_string line)))"
    and "parse_line st line = Next st'"
  shows "depth_after (node st') 0 = Some 1 \<and> \<not> slashvar_mode st'"
proof -
  let ?start = "st\<lparr>first_token := True, slashvar_mode := False\<rparr>"
  have b: "balanced EXPR ?start"
    using assms(1,2) by (simp add: balanced_def count_ops_def stack_ok_def)
  from assms(4) obtain st1 where l: "token_loop ?start (c_string line) = Next st1"
    by (cases "token_loop ?start (c_string line)") (simp_all add: parse_line_def)
  have "balanced OPER st1 \<and> \<not> slashvar_mode st1"
    using assms(3) b l
    by (intro expression_loop [of ?start "c_string line" "length (c_string line)" EXPR st1])
      (simp_all add: tokens_def)
  then have b1: "balanced OPER st1" and s1: "\<not> slashvar_mode st1" by simp_all
  from assms(4) l s1 have d: "drain (stack st1) st1 = Next st'" by (simp add: parse_line_def)
  from b1 have "depth_after (node st1) 0 = Some (Suc (count_ops (stack st1)))"
    "stack_ok (stack st1)" "separated (stack st1)" "length (stack st1) \<le> STACK_MAX"
    by (simp_all add: balanced_def)
  with d have "depth_after (node st') 0 = Some 1"
    by (intro drain_depth [of "stack st1" st1 st']) simp_all
  moreover from drain_appends [OF d] s1 have "\<not> slashvar_mode st'" by simp
  ultimately show ?thesis by simp
qed

subsubsection \<open>Lines without an undefined shift, and the state at the start of a line\<close>

lemma print_table_defined:
  assumes "evaluate nodes 0 \<noteq> None" and "length vars \<le> 30"
  shows "Undefined \<notin> set (print_table vars nodes)"
proof -
  from assms(1) obtain v where v: "evaluate nodes 0 = Some v" by auto
  show ?thesis
  proof (cases "v < 0")
    case True
    with v show ?thesis by (simp add: print_table_def)
  next
    case False
    with v assms(2) print_table_complete [of vars nodes v] show ?thesis by auto
  qed
qed

lemma process_line_defined:
  assumes "node st = []" and "stack st = []"
    and "\<And>st'. parse_line st line = Next st' \<Longrightarrow> length (variable st') \<le> 30"
  shows "Undefined \<notin> set (fst (process_line st line))"
proof (cases "parse_line st line")
  case (Next st')
  show ?thesis
  proof (cases "slashvar_mode st'")
    case True
    with Next show ?thesis by (simp add: process_line_def)
  next
    case False
    from Next have n: "length (variable st') \<le> 30" by (rule assms(3))
    have "ids_ok (variable st') (node st')"
      using assms(1,2) Next by (rule parse_line_ids_ok)
    then have "evaluate (node st') 0 \<noteq> None"
      unfolding evaluate_def using n by (intro evaluate_loop_defined [of "variable st'"]) simp_all
    then have "Undefined \<notin> set (print_table (variable st') (node st'))"
      using n by (rule print_table_defined)
    with Next False show ?thesis by (simp add: process_line_def Let_def)
  qed
next
  case (Cleanup msg)
  then show ?thesis by (simp add: process_line_def)
next
  case (Die msg)
  then show ?thesis by (simp add: process_line_def)
qed

lemma handle_token_slashvar_line:
  assumes "handle_token st t = Next st'" and "slashvar_mode st'"
    and "if slashvar_mode st then True else first_token st"
  shows "node st' = node st \<and> stack st' = stack st"
proof (cases "slashvar_mode st")
  case True
  with assms(1) show ?thesis
    by (auto simp: handle_token_def split: if_splits sum.splits)
next
  case False
  have "Token.type t = SLASHVARS"
  proof (rule ccontr)
    assume "Token.type t \<noteq> SLASHVARS"
    with False assms(1) have "slashvar_mode st' = slashvar_mode st"
      by (cases "Token.type t")
        (auto simp: handle_token_def split: outcome.splits if_splits
          dest!: pop_operators_appends pop_to_lparen_appends PUSH_variable output_appends)
    with False assms(2) show False by simp
  qed
  with False assms(1) show ?thesis
    by (auto simp: handle_token_def split: if_splits)
qed

lemma handle_token_no_slashvar:
  assumes "handle_token st t = Next st'" and "\<not> slashvar_mode st" and "\<not> first_token st"
  shows "\<not> slashvar_mode st'"
  using assms
  by (cases "Token.type t")
    (auto simp: handle_token_def split: outcome.splits if_splits
      dest!: pop_operators_appends pop_to_lparen_appends PUSH_variable output_appends)

lemma token_loop_no_slashvar:
  "\<not> slashvar_mode st \<Longrightarrow> \<not> first_token st \<Longrightarrow> token_loop st inp = Next st' \<Longrightarrow>
   \<not> slashvar_mode st'"
proof (induction st inp rule: token_loop.induct)
  case (1 st inp)
  show ?case
  proof (cases "next_token inp")
    case None
    with "1.prems" show ?thesis by (subst (asm) token_loop.simps) simp
  next
    case (Some a)
    obtain t rest where a: "a = (t, rest)" by (cases a)
    from "1.prems"(3) Some a obtain st1 where u: "Token.type t \<noteq> UNKNOWN"
      and h: "handle_token st t = Next st1"
      and l: "token_loop (st1\<lparr>first_token := False\<rparr>) rest = Next st'"
      by (subst (asm) token_loop.simps) (auto split: if_splits outcome.splits)
    have "\<not> slashvar_mode st1"
      using h "1.prems"(1,2) by (rule handle_token_no_slashvar)
    with Some a u h l show ?thesis
      by (intro "1.IH" [of a t rest st1]) simp_all
  qed
qed

lemma token_loop_slashvar_line:
  assumes "token_loop st inp = Next st'" and "slashvar_mode st'"
    and "if slashvar_mode st then True else first_token st"
  shows "node st' = node st \<and> stack st' = stack st"
  using assms
proof (induction st inp rule: token_loop.induct)
  case (1 st inp)
  show ?case
  proof (cases "next_token inp")
    case None
    with "1.prems"(1) show ?thesis by (subst (asm) token_loop.simps) simp
  next
    case (Some a)
    obtain t rest where a: "a = (t, rest)" by (cases a)
    from "1.prems"(1) Some a obtain st1 where u: "Token.type t \<noteq> UNKNOWN"
      and h: "handle_token st t = Next st1"
      and l: "token_loop (st1\<lparr>first_token := False\<rparr>) rest = Next st'"
      by (subst (asm) token_loop.simps) (auto split: if_splits outcome.splits)
    have s1: "slashvar_mode st1"
      using token_loop_no_slashvar [of "st1\<lparr>first_token := False\<rparr>" rest st'] l "1.prems"(2)
      by auto
    from handle_token_slashvar_line [OF h s1 "1.prems"(3)]
    have e1: "node st1 = node st \<and> stack st1 = stack st" .
    have "node st' = node (st1\<lparr>first_token := False\<rparr>) \<and> stack st' = stack (st1\<lparr>first_token := False\<rparr>)"
      using Some a u h l "1.prems"(2) s1
      by (intro "1.IH" [of a t rest st1]) simp_all
    with e1 show ?thesis by simp
  qed
qed

lemma process_line_line_start:
  assumes "node st = []" and "stack st = []" and "process_line st line = (evs, Some st')"
  shows "node st' = [] \<and> stack st' = []"
proof (cases "parse_line st line")
  case (Next st1)
  show ?thesis
  proof (cases "slashvar_mode st1")
    case True
    let ?start = "st\<lparr>first_token := True, slashvar_mode := False\<rparr>"
    from Next True have l: "token_loop ?start (c_string line) = Next st1"
      by (cases "token_loop ?start (c_string line)")
        (auto simp: parse_line_def split: if_splits dest: drain_appends)
    from token_loop_slashvar_line [OF l True] assms(1,2)
    have "node st1 = [] \<and> stack st1 = []" by simp
    moreover from Next True assms(3) have "st' = st1" by (simp add: process_line_def)
    ultimately show ?thesis by simp
  next
    case False
    with Next assms(3) have "st' = empty_state"
      by (auto simp: process_line_def Let_def split: if_splits)
    then show ?thesis by (simp add: empty_state_def)
  qed
next
  case (Cleanup msg)
  with assms(3) have "st' = empty_state" by (auto simp: process_line_def)
  then show ?thesis by (simp add: empty_state_def)
next
  case (Die msg)
  with assms(3) show ?thesis by (simp add: process_line_def)
qed

lemma table_rows_no_stderr: "Stderr msg \<notin> set (table_rows vars nodes i)"
proof (induction vars nodes i rule: table_rows.induct)
  case (1 vars nodes i)
  show ?case
  proof (cases "i = - 1")
    case True
    then show ?thesis by (subst table_rows.simps) simp
  next
    case False
    show ?thesis
    proof (cases "table_row vars nodes i")
      case None
      with False show ?thesis by (subst table_rows.simps) simp
    next
      case (Some s)
      with False "1.IH" [of s] show ?thesis by (subst table_rows.simps) simp
    qed
  qed
qed

lemma print_table_stdout_or_stderr:
  assumes "Stdout s \<in> set (print_table vars nodes)"
  shows "Stderr msg \<notin> set (print_table vars nodes)"
proof -
  from assms obtain v where v: "evaluate nodes 0 = Some v" "0 \<le> v"
    by (cases "evaluate nodes 0") (auto simp: print_table_def split: if_splits)
  then show ?thesis
    by (cases "shl_int 1 (int (length vars))")
      (simp_all add: print_table_def table_rows_no_stderr del: table_rows.simps)
qed

lemma process_line_error_no_table:
  assumes "Stderr msg \<in> set (fst (process_line st line))"
    and "Stdout s \<in> set (fst (process_line st line))"
  shows "s = nl"
proof (cases "parse_line st line")
  case (Next st')
  show ?thesis
  proof (cases "slashvar_mode st'")
    case True
    with Next assms show ?thesis by (simp add: process_line_def)
  next
    case False
    let ?pt = "print_table (variable st') (node st')"
    from Next False assms have m: "Stderr msg \<in> set ?pt"
      by (auto simp: process_line_def Let_def split: if_splits)
    have "Stdout s \<notin> set ?pt"
      using m print_table_stdout_or_stderr [of s "variable st'" "node st'" msg] by blast
    with Next False assms(2) show ?thesis
      by (auto simp: process_line_def Let_def split: if_splits)
  qed
next
  case (Cleanup m)
  with assms show ?thesis by (simp add: process_line_def)
next
  case (Die m)
  with assms show ?thesis by (simp add: process_line_def)
qed

subsubsection \<open>The grammar of the specification and the nodes of the parser\<close>

lemma token_steps_append:
  "token_steps st (xs @ ys) =
     (case token_steps st xs of Next st1 \<Rightarrow> token_steps st1 ys | other \<Rightarrow> other)"
  by (induction xs arbitrary: st) (auto split: outcome.splits)

lemma token_steps_append_Next:
  assumes "token_steps st (xs @ ys) = Next st'"
  obtains st1 where "token_steps st xs = Next st1" and "token_steps st1 ys = Next st'"
  using assms by (cases "token_steps st xs") (simp_all add: token_steps_append)

lemma token_loop_tokens:
  assumes "length inp \<le> k" and "list_all (\<lambda>t. Token.type t \<noteq> UNKNOWN) (tokens_upto k inp)"
  shows "token_loop st inp = token_steps st (tokens_upto k inp)"
  using assms
proof (induction k arbitrary: st inp)
  case 0
  then have "next_token inp = None" by (simp add: next_token_def)
  then show ?case by (subst token_loop.simps) simp
next
  case (Suc k)
  show ?case
  proof (cases "next_token inp")
    case None
    then show ?thesis by (subst token_loop.simps) simp
  next
    case (Some a)
    obtain t rest where a: "a = (t, rest)" by (cases a)
    with Some have nt: "next_token inp = Some (t, rest)" by simp
    from Suc.prems(2) nt have u: "Token.type t \<noteq> UNKNOWN"
      by (auto split: if_splits)
    with nt have tk: "tokens_upto (Suc k) inp = t # tokens_upto k rest" by simp
    have "length rest < length inp" by (rule next_token_shorter [OF nt u])
    with Suc.prems(2) Suc.prems(1) have lr: "length rest \<le> k" by simp
    from Suc.prems(2) tk have al: "list_all (\<lambda>t. Token.type t \<noteq> UNKNOWN) (tokens_upto k rest)"
      by simp
    have ih: "token_loop st1 rest = token_steps st1 (tokens_upto k rest)" for st1
      using lr al by (rule Suc.IH)
    show ?thesis
      unfolding tk
      by (subst token_loop.simps) (simp add: nt u ih del: token_loop.simps split: outcome.splits)
  qed
qed

lemma tokens_upto_ok:
  "list_all (\<lambda>t. Token.type t \<noteq> UNKNOWN \<longrightarrow> token_ok t) (tokens_upto k inp)"
proof (induction k arbitrary: inp)
  case 0
  show ?case by simp
next
  case (Suc k)
  show ?case
  proof (cases "next_token inp")
    case None
    then show ?thesis by simp
  next
    case (Some a)
    obtain t rest where a: "a = (t, rest)" by (cases a)
    with Some have nt: "next_token inp = Some (t, rest)" by simp
    show ?thesis
    proof (cases "Token.type t = UNKNOWN")
      case True
      with nt show ?thesis by simp
    next
      case False
      with nt have "token_ok t" by (rule next_token_ok)
      with nt False Suc.IH [of rest] show ?thesis by simp
    qed
  qed
qed

lemma index_of_append: "x \<in> set vs \<Longrightarrow> index_of (vs @ ws) x = index_of vs x"
  by (induction vs) auto

lemma index_of_absent: "x \<notin> set vs \<Longrightarrow> index_of (vs @ x # ws) x = length vs"
  by (induction vs) auto

lemma var_scan_index:
  "var_scan vs x i = (True, j) \<Longrightarrow> j = i + index_of vs x \<and> x \<in> set vs"
proof (induction vs arbitrary: i)
  case Nil
  then show ?case by simp
next
  case (Cons v vs)
  show ?case
  proof (cases "x = v")
    case True
    with Cons.prems show ?thesis by (simp split: if_splits)
  next
    case False
    with Cons.prems have "var_scan vs x (Suc i) = (True, j)" by (simp split: if_splits)
    from Cons.IH [OF this] False show ?thesis by simp
  qed
qed

lemma var_scan_missing:
  "var_scan vs x i = (False, j) \<Longrightarrow> j \<noteq> VAR_MAX \<Longrightarrow> i \<le> VAR_MAX \<Longrightarrow>
   x \<notin> set vs \<and> j = i + length vs"
proof (induction vs arbitrary: i)
  case Nil
  then show ?case by simp
next
  case (Cons v vs)
  from Cons.prems have lt: "i < VAR_MAX"
    by (cases "i < VAR_MAX") auto
  with Cons.prems have ne: "x \<noteq> v" and sc: "var_scan vs x (Suc i) = (False, j)"
    by (auto split: if_splits)
  from lt have "Suc i \<le> VAR_MAX" by simp
  from Cons.IH [OF sc Cons.prems(2) this] ne show ?case by simp
qed

lemma var_id_index_of:
  assumes "var_id vars x = Inr (i, vs)"
  shows "x \<in> set vs \<and> i = index_of vs x \<and> (\<exists>ws. vs = vars @ ws)"
proof (cases "var_scan vars x 0")
  case (Pair found j)
  show ?thesis
  proof (cases found)
    case True
    with Pair assms have "vs = vars" "i = j" by (simp_all add: var_id_def)
    with var_scan_index [of vars x 0 j] Pair True show ?thesis by simp
  next
    case False
    with Pair assms have j: "j \<noteq> VAR_MAX" and vs: "vs = vars @ [x]" and i: "i = j"
      by (auto simp: var_id_def split: if_splits)
    from Pair False have "var_scan vars x 0 = (False, j)" by simp
    from var_scan_missing [OF this j] have "x \<notin> set vars" "j = length vars" by simp_all
    with vs i index_of_absent [of x vars "[]"] show ?thesis by simp
  qed
qed

lemma run_nodes_append:
  "run_nodes (ns @ ms) bits s r =
     (case run_nodes ns bits s r of Go s' r' \<Rightarrow> run_nodes ms bits s' r' | other \<Rightarrow> other)"
  by (induction ns arbitrary: s r) (auto split: step.splits)

lemma evaluate_loop_run:
  "evaluate_loop ns bits s r =
     (case run_nodes ns bits s r of
        Go s' r' \<Rightarrow> (case s' of [v] \<Rightarrow> Some v | _ \<Rightarrow> Some (- 3))
      | Ret v \<Rightarrow> Some v
      | Undef \<Rightarrow> None)"
  by (induction ns arbitrary: s r) (auto split: step.splits)

lemma pushes_variable:
  "pushes [\<lparr>Node.type = VARIABLE, id = int i\<rparr>] bits (bit bits i)"
  by (auto simp: pushes_def eval_node_variable split: if_splits)

lemma pushes_not:
  assumes "pushes ns bits v"
  shows "pushes (ns @ [\<lparr>Node.type = NOT, id = k\<rparr>]) bits (\<not> v)"
  unfolding pushes_def
proof (intro allI impI)
  fix s r s' r'
  assume run: "run_nodes (ns @ [\<lparr>Node.type = NOT, id = k\<rparr>]) bits s r = Go s' r'"
  then obtain s1 r1 where r1: "run_nodes ns bits s r = Go s1 r1"
    by (cases "run_nodes ns bits s r") (simp_all add: run_nodes_append)
  with assms have s1: "s1 = (if v then 1 else 0) # s" unfolding pushes_def by blast
  from run r1 s1 show "s' = (if \<not> v then 1 else 0) # s"
    by (cases v) (auto simp: run_nodes_append eval_node_not)
qed

lemma oper_rule_truth:
  assumes "0 \<le> k" and "k < 7"
  shows "oper_rule k (if a then 1 else 0) (if b then 1 else 0)
           = Some (if truth_rule k a b then 1 else 0)"
proof -
  from assms have "k = 0 \<or> k = 1 \<or> k = 2 \<or> k = 3 \<or> k = 4 \<or> k = 5 \<or> k = 6" by arith
  then show ?thesis
    by (elim disjE) (simp_all add: oper_rule_def truth_rule_def oper_defs)
qed

lemma pushes_binary:
  assumes a: "pushes ns bits a" and b: "pushes ms bits b" and k: "0 \<le> k" "k < 7"
  shows "pushes (ns @ ms @ [\<lparr>Node.type = OPERATOR, id = k\<rparr>]) bits (truth_rule k a b)"
  unfolding pushes_def
proof (intro allI impI)
  fix s r s' r'
  assume run: "run_nodes (ns @ ms @ [\<lparr>Node.type = OPERATOR, id = k\<rparr>]) bits s r = Go s' r'"
  then obtain s1 r1 where r1: "run_nodes ns bits s r = Go s1 r1"
    by (cases "run_nodes ns bits s r") (simp_all add: run_nodes_append)
  with a have s1: "s1 = (if a then 1 else 0) # s" unfolding pushes_def by blast
  from run r1 obtain s2 r2 where r2: "run_nodes ms bits s1 r1 = Go s2 r2"
    by (cases "run_nodes ms bits s1 r1") (simp_all add: run_nodes_append)
  with b have s2: "s2 = (if b then 1 else 0) # s1" unfolding pushes_def by blast
  from run r1 r2 have "eval_node \<lparr>Node.type = OPERATOR, id = k\<rparr> bits s2 r2 = Go s' r'"
    by (simp add: run_nodes_append split: step.splits)
  then show "s' = (if truth_rule k a b then 1 else 0) # s"
    unfolding s2 s1 eval_node_operator oper_rule_truth [OF k]
    by (simp split: if_splits)
qed

lemma output_node_of:
  "Token.type x = OPERATOR \<or> Token.type x = NOT \<Longrightarrow>
   output x st = Next (st\<lparr>node := node st @ [node_of x]\<rparr>)"
  by (auto simp: output_def node_of_def)

lemma flush_pop_operators:
  assumes "pending pend" and "barrier T"
  shows "pop_operators (pend @ T) st =
           Next (st\<lparr>node := node st @ map node_of pend, stack := T\<rparr>)"
  using assms
proof (induction pend arbitrary: st)
  case Nil
  then show ?case by (cases T) (simp_all add: barrier_def)
next
  case (Cons x xs)
  from Cons.prems have x: "Token.type x = OPERATOR \<or> Token.type x = NOT" and xs: "pending xs"
    by (simp_all add: pending_def)
  from Cons.IH [OF xs Cons.prems(2)] x show ?case
    by (simp add: output_node_of)
qed

lemma flush_pop_to_lparen:
  assumes "pending pend" and "Token.type lp = LPAREN"
  shows "pop_to_lparen (pend @ lp # T) st =
           Next (st\<lparr>node := node st @ map node_of pend, stack := lp # T\<rparr>)"
  using assms
proof (induction pend arbitrary: st)
  case Nil
  then show ?case by simp
next
  case (Cons x xs)
  from Cons.prems have x: "Token.type x = OPERATOR \<or> Token.type x = NOT" and xs: "pending xs"
    by (simp_all add: pending_def)
  from x have "Token.type x \<noteq> LPAREN" by auto
  with Cons.IH [OF xs Cons.prems(2)] x show ?case
    by (simp add: output_node_of)
qed

lemma flush_drain:
  assumes "pending pend"
  shows "drain pend st = Next (st\<lparr>node := node st @ map node_of pend, stack := []\<rparr>)"
  using assms
proof (induction pend arbitrary: st)
  case Nil
  then show ?case by simp
next
  case (Cons x xs)
  from Cons.prems have x: "Token.type x = OPERATOR \<or> Token.type x = NOT" and xs: "pending xs"
    by (simp_all add: pending_def)
  from x have "Token.type x \<noteq> LPAREN" by auto
  with Cons.IH [OF xs] x show ?case
    by (simp add: output_node_of)
qed

lemma handle_variable:
  assumes "\<not> slashvar_mode st" and "handle_token st \<lparr>text = x, type = VARIABLE\<rparr> = Next st1"
  shows "\<exists>i vars. var_id (variable st) x = Inr (i, vars)
           \<and> st1 = st\<lparr>variable := vars,
                      node := node st @ [\<lparr>Node.type = VARIABLE, id = int i\<rparr>]\<rparr>"
  using assms by (auto simp: handle_token_def output_def split: sum.splits)

lemma handle_push:
  assumes "\<not> slashvar_mode st" and "Token.type t = NOT \<or> Token.type t = LPAREN"
    and "handle_token st t = Next st1"
  shows "st1 = st\<lparr>stack := t # stack st\<rparr>"
  using assms by (auto simp: handle_token_def PUSH_def split: if_splits)

lemma handle_rparen:
  assumes ns: "\<not> slashvar_mode st" and t: "Token.type t = RPAREN"
    and s: "stack st = pend @ lp # T" and p: "pending pend" and lp: "Token.type lp = LPAREN"
  shows "handle_token st t = Next (st\<lparr>node := node st @ map node_of pend, stack := T\<rparr>)"
  using ns t by (simp add: handle_token_def s flush_pop_to_lparen [OF p lp])

lemma handle_operator:
  assumes ns: "\<not> slashvar_mode st" and t: "Token.type t = OPERATOR"
    and s: "stack st = pend @ T" and p: "pending pend" and b: "barrier T"
    and h: "handle_token st t = Next st1"
  shows "st1 = st\<lparr>node := node st @ map node_of pend, stack := t # T\<rparr>"
  using ns t h
  by (simp add: handle_token_def s flush_pop_operators [OF p b] PUSH_def split: if_splits)

lemma reaches_variable:
  assumes ns: "\<not> slashvar_mode st"
    and ts: "token_steps st [\<lparr>text = x, type = VARIABLE\<rparr>] = Next st'"
  shows "reaches st st' (\<lambda>env. env x)"
proof -
  from ts obtain st1 where h: "handle_token st \<lparr>text = x, type = VARIABLE\<rparr> = Next st1"
    and st': "st' = st1\<lparr>first_token := False\<rparr>"
    by (cases "handle_token st \<lparr>text = x, type = VARIABLE\<rparr>") simp_all
  from handle_variable [OF ns h] obtain i vars where
    v: "var_id (variable st) x = Inr (i, vars)"
    and st1: "st1 = st\<lparr>variable := vars,
                       node := node st @ [\<lparr>Node.type = VARIABLE, id = int i\<rparr>]\<rparr>"
    by blast
  from var_id_index_of [OF v] obtain ws where x: "x \<in> set vars" and i: "i = index_of vars x"
    and ws: "vars = variable st @ ws"
    by blast
  have p: "pushes [\<lparr>Node.type = VARIABLE, id = int i\<rparr>] bits (assignment (vars @ ws') bits x)"
    for ws' bits
    unfolding assignment_def index_of_append [OF x] i [symmetric] by (rule pushes_variable)
  show ?thesis
    unfolding reaches_def
  proof (intro exI conjI allI)
    show "node st' = node st @ [\<lparr>Node.type = VARIABLE, id = int i\<rparr>]"
      by (simp add: st' st1)
    show "stack st' = [] @ stack st" by (simp add: st' st1)
    show "pending []" by (simp add: pending_def)
    show "variable st' = variable st @ ws" by (simp add: st' st1 ws)
    show "\<not> slashvar_mode st'" using ns by (simp add: st' st1)
    show "pushes ([\<lparr>Node.type = VARIABLE, id = int i\<rparr>] @ map node_of []) bits
                 (assignment (variable st' @ ws') bits x)" for ws' bits
      using p [of bits ws'] by (simp add: st' st1)
  qed
qed

lemma grammar_steps:
  "\<not> slashvar_mode st \<Longrightarrow> list_all token_ok (operand_tokens u) \<Longrightarrow>
   token_steps st (operand_tokens u) = Next st' \<Longrightarrow>
   reaches st st' (\<lambda>env. operand_value env u)"
  "\<not> slashvar_mode st \<Longrightarrow> barrier (stack st) \<Longrightarrow> list_all token_ok (expr_tokens e) \<Longrightarrow>
   token_steps st (expr_tokens e) = Next st' \<Longrightarrow>
   reaches st st' (\<lambda>env. expr_value env e)"
proof (induction u and e arbitrary: st st' and st st')
  case (Var x)
  then show ?case by (simp add: reaches_variable del: token_steps.simps)
next
  case (Neg s u)
  let ?t = "\<lparr>text = s, type = NOT\<rparr>"
  from Neg.prems(3) obtain st1 where h: "handle_token st ?t = Next st1"
    and rest: "token_steps (st1\<lparr>first_token := False\<rparr>) (operand_tokens u) = Next st'"
    by (auto split: outcome.splits)
  from handle_push [OF Neg.prems(1) _ h] have st1: "st1 = st\<lparr>stack := ?t # stack st\<rparr>"
    by simp
  let ?st2 = "st1\<lparr>first_token := False\<rparr>"
  have "\<not> slashvar_mode ?st2" using Neg.prems(1) by (simp add: st1)
  moreover have "list_all token_ok (operand_tokens u)" using Neg.prems(2) by simp
  ultimately have "reaches ?st2 st' (\<lambda>env. operand_value env u)"
    using rest by (rule Neg.IH)
  then obtain pre pend ws where n: "node st' = node ?st2 @ pre"
    and s: "stack st' = pend @ stack ?st2" and p: "pending pend"
    and v: "variable st' = variable ?st2 @ ws" and m: "\<not> slashvar_mode st'"
    and val: "\<And>ws' bits. pushes (pre @ map node_of pend) bits
                 (operand_value (assignment (variable st' @ ws') bits) u)"
    unfolding reaches_def by blast
  show ?case
    unfolding reaches_def
  proof (intro exI conjI allI)
    show "node st' = node st @ pre" using n by (simp add: st1)
    show "stack st' = (pend @ [?t]) @ stack st" using s by (simp add: st1)
    show "pending (pend @ [?t])" using p by (simp add: pending_def)
    show "variable st' = variable st @ ws" using v by (simp add: st1)
    show "\<not> slashvar_mode st'" by (rule m)
    show "pushes (pre @ map node_of (pend @ [?t])) bits
            (operand_value (assignment (variable st' @ ws') bits) (Neg s u))" for ws' bits
      using pushes_not [OF val [of bits ws'], of 0] by (simp add: node_of_def)
  qed
next
  case (Paren e)
  let ?lp = "\<lparr>text = ''('', type = LPAREN\<rparr>"
  let ?rp = "\<lparr>text = '')'', type = RPAREN\<rparr>"
  from Paren.prems(3) obtain st1 where h: "handle_token st ?lp = Next st1"
    and rest: "token_steps (st1\<lparr>first_token := False\<rparr>) (expr_tokens e @ [?rp]) = Next st'"
    by (auto split: outcome.splits)
  from handle_push [OF Paren.prems(1) _ h] have st1: "st1 = st\<lparr>stack := ?lp # stack st\<rparr>"
    by simp
  let ?st2 = "st1\<lparr>first_token := False\<rparr>"
  from rest obtain st3 where inner: "token_steps ?st2 (expr_tokens e) = Next st3"
    and close: "token_steps st3 [?rp] = Next st'"
    by (rule token_steps_append_Next)
  have "\<not> slashvar_mode ?st2" using Paren.prems(1) by (simp add: st1)
  moreover have "barrier (stack ?st2)" by (simp add: st1 barrier_def)
  moreover have "list_all token_ok (expr_tokens e)" using Paren.prems(2) by simp
  ultimately have "reaches ?st2 st3 (\<lambda>env. expr_value env e)"
    using inner by (rule Paren.IH)
  then obtain pre pend ws where n: "node st3 = node ?st2 @ pre"
    and s: "stack st3 = pend @ stack ?st2" and p: "pending pend"
    and v: "variable st3 = variable ?st2 @ ws" and m: "\<not> slashvar_mode st3"
    and val: "\<And>ws' bits. pushes (pre @ map node_of pend) bits
                 (expr_value (assignment (variable st3 @ ws') bits) e)"
    unfolding reaches_def by blast
  from s have s3: "stack st3 = pend @ ?lp # stack st" by (simp add: st1)
  have "handle_token st3 ?rp
          = Next (st3\<lparr>node := node st3 @ map node_of pend, stack := stack st\<rparr>)"
    using m _ s3 p by (rule handle_rparen) simp_all
  with close have st': "st' = st3\<lparr>node := node st3 @ map node_of pend, stack := stack st,
                                  first_token := False\<rparr>"
    by simp
  show ?case
    unfolding reaches_def
  proof (intro exI conjI allI)
    show "node st' = node st @ (pre @ map node_of pend)" using n by (simp add: st' st1)
    show "stack st' = [] @ stack st" by (simp add: st')
    show "pending []" by (simp add: pending_def)
    show "variable st' = variable st @ ws" using v by (simp add: st' st1)
    show "\<not> slashvar_mode st'" using m by (simp add: st')
    show "pushes ((pre @ map node_of pend) @ map node_of []) bits
            (operand_value (assignment (variable st' @ ws') bits) (Paren e))" for ws' bits
      using val [of bits ws'] by (simp add: st')
  qed
next
  case (Operand u)
  from Operand.prems(1,3,4) show ?case
    by (simp add: Operand.IH del: token_steps.simps)
next
  case (Binary e s u)
  let ?t = "\<lparr>text = s, type = OPERATOR\<rparr>"
  from Binary.prems(3) have ok: "list_all token_ok (expr_tokens e)" "token_ok ?t"
    "list_all token_ok (operand_tokens u)"
    by simp_all
  from ok(2) have k: "0 \<le> oper_id s" "oper_id s < 7" by (simp_all add: token_ok_def)
  from Binary.prems(4)
  have "token_steps st (expr_tokens e @ (?t # operand_tokens u)) = Next st'" by simp
  then obtain st1 where left: "token_steps st (expr_tokens e) = Next st1"
    and rest: "token_steps st1 (?t # operand_tokens u) = Next st'"
    by (rule token_steps_append_Next)
  from Binary.prems(1,2) ok(1) left have "reaches st st1 (\<lambda>env. expr_value env e)"
    by (rule Binary.IH(1))
  then obtain pre1 pend1 ws1 where n1: "node st1 = node st @ pre1"
    and s1: "stack st1 = pend1 @ stack st" and p1: "pending pend1"
    and v1: "variable st1 = variable st @ ws1" and m1: "\<not> slashvar_mode st1"
    and val1: "\<And>ws' bits. pushes (pre1 @ map node_of pend1) bits
                 (expr_value (assignment (variable st1 @ ws') bits) e)"
    unfolding reaches_def by blast
  from rest obtain st2 where h: "handle_token st1 ?t = Next st2"
    and right: "token_steps (st2\<lparr>first_token := False\<rparr>) (operand_tokens u) = Next st'"
    by (auto split: outcome.splits)
  have st2: "st2 = st1\<lparr>node := node st1 @ map node_of pend1, stack := ?t # stack st\<rparr>"
    using m1 _ s1 p1 Binary.prems(2) h by (rule handle_operator) simp
  let ?st3 = "st2\<lparr>first_token := False\<rparr>"
  have "\<not> slashvar_mode ?st3" using m1 by (simp add: st2)
  then have "reaches ?st3 st' (\<lambda>env. operand_value env u)"
    using ok(3) right by (rule Binary.IH(2))
  then obtain pre2 pend2 ws2 where n2: "node st' = node ?st3 @ pre2"
    and s2: "stack st' = pend2 @ stack ?st3" and p2: "pending pend2"
    and v2: "variable st' = variable ?st3 @ ws2" and m2: "\<not> slashvar_mode st'"
    and val2: "\<And>ws' bits. pushes (pre2 @ map node_of pend2) bits
                 (operand_value (assignment (variable st' @ ws') bits) u)"
    unfolding reaches_def by blast
  from v2 have v2': "variable st' = variable st1 @ ws2" by (simp add: st2)
  show ?case
    unfolding reaches_def
  proof (intro exI conjI allI)
    show "node st' = node st @ (pre1 @ map node_of pend1 @ pre2)"
      using n2 n1 by (simp add: st2)
    show "stack st' = (pend2 @ [?t]) @ stack st" using s2 by (simp add: st2)
    show "pending (pend2 @ [?t])" using p2 by (simp add: pending_def)
    show "variable st' = variable st @ (ws1 @ ws2)" using v2' v1 by simp
    show "\<not> slashvar_mode st'" by (rule m2)
    show "pushes ((pre1 @ map node_of pend1 @ pre2) @ map node_of (pend2 @ [?t])) bits
            (expr_value (assignment (variable st' @ ws') bits) (Binary e s u))" for ws' bits
    proof -
      have a: "pushes (pre1 @ map node_of pend1) bits
                 (expr_value (assignment (variable st' @ ws') bits) e)"
        using val1 [of bits "ws2 @ ws'"] by (simp add: v2')
      from pushes_binary [OF a val2 [of bits ws'] k] show ?thesis
        by (simp add: node_of_def)
    qed
  qed
qed

lemma grammar_form:
  "expression_form EXPR (map Token.type (operand_tokens u) @ tys) = expression_form OPER tys"
  "expression_form EXPR (map Token.type (expr_tokens e) @ tys) = expression_form OPER tys"
  by (induction u and e arbitrary: tys and tys) simp_all

lemma grammar_known:
  "list_all (\<lambda>t. Token.type t \<noteq> UNKNOWN) (operand_tokens u)"
  "list_all (\<lambda>t. Token.type t \<noteq> UNKNOWN) (expr_tokens e)"
  by (induction u and e) simp_all

lemma run_nodes_ret: "run_nodes ns bits s r = Ret v \<Longrightarrow> v = - 1 \<or> v = - 2"
proof (induction ns arbitrary: s r)
  case Nil
  then show ?case by simp
next
  case (Cons n ns)
  show ?case
  proof (cases "eval_node n bits s r")
    case (Go s' r')
    with Cons.prems have "run_nodes ns bits s' r' = Ret v" by simp
    then show ?thesis by (rule Cons.IH)
  next
    case (Ret w)
    with Cons.prems have "w = v" by simp
    with Ret show ?thesis by (auto dest: eval_node_ret)
  next
    case Undef
    with Cons.prems show ?thesis by simp
  qed
qed

lemma grammar_line:
  assumes n: "node st = []" and s: "stack st = []"
    and tk: "tokens (c_string line) = expr_tokens e"
    and pl: "parse_line st line = Next st'"
  shows "\<not> slashvar_mode st'"
    and "evaluate (node st') bits = Some v \<Longrightarrow>
         v = (if expr_value (assignment (variable st') bits) e then 1 else 0)"
    and "length (variable st') \<le> 31 \<Longrightarrow>
         evaluate (node st') bits
           = Some (if expr_value (assignment (variable st') bits) e then 1 else 0)"
proof -
  let ?start = "st\<lparr>first_token := True, slashvar_mode := False\<rparr>"
  let ?inp = "c_string line"
  from tk have tu: "tokens_upto (length ?inp) ?inp = expr_tokens e"
    by (simp add: tokens_def)
  have "token_loop ?start ?inp = token_steps ?start (tokens_upto (length ?inp) ?inp)"
    by (rule token_loop_tokens) (simp_all add: tu grammar_known)
  then have tl: "token_loop ?start ?inp = token_steps ?start (expr_tokens e)"
    by (simp add: tu)
  from pl obtain st1 where l: "token_loop ?start ?inp = Next st1"
    by (cases "token_loop ?start ?inp") (simp_all add: parse_line_def)
  with tl have ts: "token_steps ?start (expr_tokens e) = Next st1" by simp
  have ok: "list_all token_ok (expr_tokens e)"
    using tokens_upto_ok [of "length ?inp" ?inp] grammar_known(2) [of e]
    unfolding tu list_all_iff by blast
  have "reaches ?start st1 (\<lambda>env. expr_value env e)"
    using _ _ ok ts by (rule grammar_steps(2)) (simp_all add: s barrier_def)
  then obtain pre pend ws where n1: "node st1 = node ?start @ pre"
    and s1: "stack st1 = pend @ stack ?start" and p: "pending pend"
    and m1: "\<not> slashvar_mode st1"
    and val: "\<And>ws' bits. pushes (pre @ map node_of pend) bits
                 (expr_value (assignment (variable st1 @ ws') bits) e)"
    unfolding reaches_def by blast
  from pl l m1 have "drain (stack st1) st1 = Next st'" by (simp add: parse_line_def)
  with s1 s flush_drain [OF p, of st1]
  have st': "st' = st1\<lparr>node := node st1 @ map node_of pend, stack := []\<rparr>"
    by simp
  from m1 show ms: "\<not> slashvar_mode st'" by (simp add: st')
  have nodes: "node st' = pre @ map node_of pend" using n1 n by (simp add: st')
  have vars: "variable st' = variable st1" by (simp add: st')
  let ?b = "if expr_value (assignment (variable st') bits) e then 1 else 0 :: int"
  from val [of bits "[]"] have pu: "pushes (node st') bits
      (expr_value (assignment (variable st') bits) e)"
    by (simp add: nodes vars)
  have form: "expression_form EXPR (map Token.type (tokens ?inp))"
    using grammar_form(2) [of e "[]"] by (simp add: tk)
  from expression_line_depth [OF n s form pl]
  have d: "depth_after (node st') 0 = Some 1" by simp
  have one: "evaluate (node st') bits = None \<or> evaluate (node st') bits = Some 0
      \<or> evaluate (node st') bits = Some 1"
    unfolding evaluate_def
    using d by (intro eval_depth_one) (simp_all add: bool_stack_def bool_r_def)
  have sv: "w = ?b" if w: "evaluate (node st') bits = Some w" for w
  proof (cases "run_nodes (node st') bits [] None")
    case (Go s' r')
    with pu have "s' = [?b]" unfolding pushes_def by blast
    with Go w show ?thesis by (simp add: evaluate_def evaluate_loop_run)
  next
    case (Ret x)
    from run_nodes_ret [OF Ret] have "x < 0" by auto
    moreover from Ret w have "w = x" by (simp add: evaluate_def evaluate_loop_run)
    moreover from one w have "w = 0 \<or> w = 1" by auto
    ultimately show ?thesis by simp
  next
    case Undef
    with w show ?thesis by (simp add: evaluate_def evaluate_loop_run)
  qed
  show "v = ?b" if "evaluate (node st') bits = Some v"
    using that by (rule sv)
  show "evaluate (node st') bits = Some ?b" if le: "length (variable st') \<le> 31"
  proof -
    have "ids_ok (variable st') (node st')"
      using n s pl by (rule parse_line_ids_ok)
    then have "evaluate (node st') bits \<noteq> None"
      unfolding evaluate_def using le by (rule evaluate_loop_defined)
    then obtain w where w: "evaluate (node st') bits = Some w" by auto
    with sv [OF w] show ?thesis by simp
  qed
qed

text \<open>The lines \<open>NOT A op B\<close> and \<open>A op NOT B\<close>, for each spelling of NOT and of the
  binary operators.\<close>

lemma negation_NOT:
  "list_all (\<lambda>op.
         0 \<le> oper_id op \<and> oper_id op < 7
         \<and> tokens (c_string (''NOT'' @ '' A '' @ op @ '' B'' @ nl))
           = expr_tokens (Binary (Operand (Neg ''NOT'' (Var ''A''))) op (Var ''B''))
         \<and> parse_line empty_state (''NOT'' @ '' A '' @ op @ '' B'' @ nl) =
             Next \<lparr>variable = [''A'', ''B''],
                   node = [\<lparr>Node.type = VARIABLE, id = 0\<rparr>, \<lparr>Node.type = NOT, id = 0\<rparr>,
                           \<lparr>Node.type = VARIABLE, id = 1\<rparr>, \<lparr>Node.type = OPERATOR, id = oper_id op\<rparr>],
                   stack = [], first_token = False, slashvar_mode = False\<rparr>
         \<and> tokens (c_string (''A '' @ op @ '' '' @ ''NOT'' @ '' B'' @ nl))
           = expr_tokens (Binary (Operand (Var ''A'')) op (Neg ''NOT'' (Var ''B'')))
         \<and> parse_line empty_state (''A '' @ op @ '' '' @ ''NOT'' @ '' B'' @ nl) =
             Next \<lparr>variable = [''A'', ''B''],
                   node = [\<lparr>Node.type = VARIABLE, id = 0\<rparr>, \<lparr>Node.type = VARIABLE, id = 1\<rparr>,
                           \<lparr>Node.type = NOT, id = 0\<rparr>, \<lparr>Node.type = OPERATOR, id = oper_id op\<rparr>],
                   stack = [], first_token = False, slashvar_mode = False\<rparr>)
       [''OR'', ''AND'', ''XOR'', ''NAND'', ''NOR'', ''IMP'', ''EQU'',
        ''|'', ''&'', ''^'', ''->'', ''='']"
  by code_simp

lemma negation_not_lower:
  "list_all (\<lambda>op.
         0 \<le> oper_id op \<and> oper_id op < 7
         \<and> tokens (c_string (''not'' @ '' A '' @ op @ '' B'' @ nl))
           = expr_tokens (Binary (Operand (Neg ''not'' (Var ''A''))) op (Var ''B''))
         \<and> parse_line empty_state (''not'' @ '' A '' @ op @ '' B'' @ nl) =
             Next \<lparr>variable = [''A'', ''B''],
                   node = [\<lparr>Node.type = VARIABLE, id = 0\<rparr>, \<lparr>Node.type = NOT, id = 0\<rparr>,
                           \<lparr>Node.type = VARIABLE, id = 1\<rparr>, \<lparr>Node.type = OPERATOR, id = oper_id op\<rparr>],
                   stack = [], first_token = False, slashvar_mode = False\<rparr>
         \<and> tokens (c_string (''A '' @ op @ '' '' @ ''not'' @ '' B'' @ nl))
           = expr_tokens (Binary (Operand (Var ''A'')) op (Neg ''not'' (Var ''B'')))
         \<and> parse_line empty_state (''A '' @ op @ '' '' @ ''not'' @ '' B'' @ nl) =
             Next \<lparr>variable = [''A'', ''B''],
                   node = [\<lparr>Node.type = VARIABLE, id = 0\<rparr>, \<lparr>Node.type = VARIABLE, id = 1\<rparr>,
                           \<lparr>Node.type = NOT, id = 0\<rparr>, \<lparr>Node.type = OPERATOR, id = oper_id op\<rparr>],
                   stack = [], first_token = False, slashvar_mode = False\<rparr>)
       [''OR'', ''AND'', ''XOR'', ''NAND'', ''NOR'', ''IMP'', ''EQU'',
        ''|'', ''&'', ''^'', ''->'', ''='']"
  by code_simp

lemma negation_bang:
  "list_all (\<lambda>op.
         0 \<le> oper_id op \<and> oper_id op < 7
         \<and> tokens (c_string (''!'' @ '' A '' @ op @ '' B'' @ nl))
           = expr_tokens (Binary (Operand (Neg ''!'' (Var ''A''))) op (Var ''B''))
         \<and> parse_line empty_state (''!'' @ '' A '' @ op @ '' B'' @ nl) =
             Next \<lparr>variable = [''A'', ''B''],
                   node = [\<lparr>Node.type = VARIABLE, id = 0\<rparr>, \<lparr>Node.type = NOT, id = 0\<rparr>,
                           \<lparr>Node.type = VARIABLE, id = 1\<rparr>, \<lparr>Node.type = OPERATOR, id = oper_id op\<rparr>],
                   stack = [], first_token = False, slashvar_mode = False\<rparr>
         \<and> tokens (c_string (''A '' @ op @ '' '' @ ''!'' @ '' B'' @ nl))
           = expr_tokens (Binary (Operand (Var ''A'')) op (Neg ''!'' (Var ''B'')))
         \<and> parse_line empty_state (''A '' @ op @ '' '' @ ''!'' @ '' B'' @ nl) =
             Next \<lparr>variable = [''A'', ''B''],
                   node = [\<lparr>Node.type = VARIABLE, id = 0\<rparr>, \<lparr>Node.type = VARIABLE, id = 1\<rparr>,
                           \<lparr>Node.type = NOT, id = 0\<rparr>, \<lparr>Node.type = OPERATOR, id = oper_id op\<rparr>],
                   stack = [], first_token = False, slashvar_mode = False\<rparr>)
       [''OR'', ''AND'', ''XOR'', ''NAND'', ''NOR'', ''IMP'', ''EQU'',
        ''|'', ''&'', ''^'', ''->'', ''='']"
  by code_simp

subsubsection \<open>A line that overflows the stack of the evaluator\<close>

lemma long_line_parsed:
  "parse_line empty_state (concat (replicate 129 ''A '') @ nl) =
     Next \<lparr>variable = [''A''], node = replicate 129 \<lparr>Node.type = VARIABLE, id = 0\<rparr>,
           stack = [], first_token = False, slashvar_mode = False\<rparr>"
  by code_simp

lemma long_line_overflow:
  "evaluate (replicate 129 \<lparr>Node.type = VARIABLE, id = 0\<rparr>) 0 = Some (- 1)"
  by code_simp

lemma long_line_reported:
  "main [concat (replicate 129 ''A '') @ nl]
     = [Stderr (''error: stack overflow'' @ nl), Stdout nl, Exit 0]"
  by code_simp

subsection \<open>The evaluator\<close>

text \<open>
  C1. An operator node met with at least two values on the stack (and the stack within
  its capacity) pops \<open>b\<close>, the value pushed last, then \<open>a\<close>, and pushes the value of the
  operator's rule on \<open>(a, b)\<close>: OR is \<open>a \<or> b\<close>, AND is \<open>a \<and> b\<close>, XOR is \<open>a \<noteq> b\<close>,
  NAND is \<open>\<not> (a \<and> b)\<close>, NOR is \<open>\<not> (a \<or> b)\<close>, IMP is \<open>\<not> a \<or> b\<close> and EQU is
  \<open>a = b\<close>. The head of the list is the top of the stack.
\<close>

theorem evaluate_operator_rules:
  assumes "length rest + 2 \<le> STACK_MAX"
  shows "eval_node \<lparr>Node.type = OPERATOR, id = OP_OR\<rparr> bits (of_bool b # of_bool a # rest) r
           = Go (of_bool (a \<or> b) # rest) (Some (of_bool (a \<or> b)))
       \<and> eval_node \<lparr>Node.type = OPERATOR, id = OP_AND\<rparr> bits (of_bool b # of_bool a # rest) r
           = Go (of_bool (a \<and> b) # rest) (Some (of_bool (a \<and> b)))
       \<and> eval_node \<lparr>Node.type = OPERATOR, id = OP_XOR\<rparr> bits (of_bool b # of_bool a # rest) r
           = Go (of_bool (a \<noteq> b) # rest) (Some (of_bool (a \<noteq> b)))
       \<and> eval_node \<lparr>Node.type = OPERATOR, id = OP_NAND\<rparr> bits (of_bool b # of_bool a # rest) r
           = Go (of_bool (\<not> (a \<and> b)) # rest) (Some (of_bool (\<not> (a \<and> b))))
       \<and> eval_node \<lparr>Node.type = OPERATOR, id = OP_NOR\<rparr> bits (of_bool b # of_bool a # rest) r
           = Go (of_bool (\<not> (a \<or> b)) # rest) (Some (of_bool (\<not> (a \<or> b))))
       \<and> eval_node \<lparr>Node.type = OPERATOR, id = OP_IMP\<rparr> bits (of_bool b # of_bool a # rest) r
           = Go (of_bool (\<not> a \<or> b) # rest) (Some (of_bool (\<not> a \<or> b)))
       \<and> eval_node \<lparr>Node.type = OPERATOR, id = OP_EQU\<rparr> bits (of_bool b # of_bool a # rest) r
           = Go (of_bool (a = b) # rest) (Some (of_bool (a = b)))"
  using assms by (cases a; cases b) (simp_all add: eval_node_def oper_rule_def oper_defs)

theorem evaluate_operator_rules_witness:
  "length ([] :: int list) + 2 \<le> STACK_MAX
   \<and> eval_node \<lparr>Node.type = OPERATOR, id = OP_IMP\<rparr> 0 [0, 1] None = Go [0] (Some 0)
   \<and> eval_node \<lparr>Node.type = OPERATOR, id = OP_IMP\<rparr> 0 [1, 0] None = Go [1] (Some 1)"
proof -
  have h: "length ([] :: int list) + 2 \<le> STACK_MAX"
    by (simp add: STACK_MAX_def)
  show ?thesis
    using h evaluate_operator_rules [OF h, of 0 False True None]
      evaluate_operator_rules [OF h, of 0 True False None]
    by simp
qed

text \<open>
  C10. Whether \<open>evaluate\<close> fails depends on the nodes only, never on the assignment:
  when it returns a failure code for one assignment it returns the same code for every
  other, and when it returns a non-negative value for one assignment it returns 0 or 1
  for every other, so that \<open>"FT"[evaluate(i)]\<close> in the loop of \<open>print_table\<close> reads
  \<open>F\<close> or \<open>T\<close> once the check at assignment 0 has passed.
\<close>

theorem evaluate_failure_independent_of_bits:
  assumes "evaluate nodes b1 = Some v"
  shows "(v < 0 \<longrightarrow> evaluate nodes b2 = Some v) \<and>
         (0 \<le> v \<longrightarrow> (\<exists>w. evaluate nodes b2 = Some w \<and> (w = 0 \<or> w = 1)
                          \<and> (FT w = Some CHR ''F'' \<or> FT w = Some CHR ''T'')))"
proof -
  have "result_sim (Some v) (evaluate nodes b2)"
    using evaluate_sim [of nodes b1 b2] assms by simp
  then have "(v < 0 \<longrightarrow> evaluate nodes b2 = Some v) \<and>
      (0 \<le> v \<longrightarrow> evaluate nodes b2 = Some 0 \<or> evaluate nodes b2 = Some 1)"
    by (auto simp: result_sim_def split: if_splits)
  moreover have "FT 0 = Some CHR ''F''" "FT 1 = Some CHR ''T''"
    by (simp_all add: FT_def)
  ultimately show ?thesis by auto
qed

theorem evaluate_failure_independent_of_bits_witness:
  "evaluate [\<lparr>Node.type = VARIABLE, id = 0\<rparr>, \<lparr>Node.type = VARIABLE, id = 1\<rparr>] 0 = Some (- 3)
   \<and> evaluate [\<lparr>Node.type = VARIABLE, id = 0\<rparr>, \<lparr>Node.type = VARIABLE, id = 1\<rparr>] 3 = Some (- 3)
   \<and> evaluate [\<lparr>Node.type = VARIABLE, id = 0\<rparr>, \<lparr>Node.type = NOT, id = 0\<rparr>] 0 = Some 1
   \<and> (\<exists>w. evaluate [\<lparr>Node.type = VARIABLE, id = 0\<rparr>, \<lparr>Node.type = NOT, id = 0\<rparr>] 1 = Some w
          \<and> (w = 0 \<or> w = 1) \<and> (FT w = Some CHR ''F'' \<or> FT w = Some CHR ''T''))"
proof -
  have h1: "evaluate [\<lparr>Node.type = VARIABLE, id = 0\<rparr>, \<lparr>Node.type = VARIABLE, id = 1\<rparr>] 0 = Some (- 3)"
    by code_simp
  have h2: "evaluate [\<lparr>Node.type = VARIABLE, id = 0\<rparr>, \<lparr>Node.type = NOT, id = 0\<rparr>] 0 = Some 1"
    by code_simp
  show ?thesis
    using h1 h2 evaluate_failure_independent_of_bits [OF h1, of 3]
      evaluate_failure_independent_of_bits [OF h2, of 1]
    by simp
qed

text \<open>
  C5. A variable node pushes bit \<open>k\<close> of the assignment only for ids below 31: the mask
  is \<open>1 << node[i].id\<close> on a 32-bit \<open>int\<close>, which C leaves undefined from 31 on, although
  \<open>VAR_MAX\<close> is 64 and the assignment has 64 bits. At id 32 and the assignment with only
  bit 32 set the evaluator does not push 1; a line with 33 variables reaches that node
  in the check at assignment 0.
\<close>

theorem variable_id_32_undefined:
  "eval_node \<lparr>Node.type = VARIABLE, id = 32\<rparr> (2 ^ 32) [] None = Undef
   \<and> evaluate [\<lparr>Node.type = VARIABLE, id = 32\<rparr>] (2 ^ 32) = None
   \<and> bit (2 ^ 32 :: 64 word) 32
   \<and> main [''a|b|c|d|e|f|g|h|i|j|k|l|m|n|o|p|q|r|s|t|u|v|w|x|y|z|A|B|C|D|E|F|G'' @ nl]
       = [Undefined]"
proof (intro conjI)
  show "main [''a|b|c|d|e|f|g|h|i|j|k|l|m|n|o|p|q|r|s|t|u|v|w|x|y|z|A|B|C|D|E|F|G'' @ nl]
       = [Undefined]"
    by code_simp
qed (simp_all add: evaluate_def eval_node_variable STACK_MAX_def bit_exp_iff)

subsection \<open>Precedence and associativity\<close>

text \<open>
  C2 as stated: the line \<open>A OR B AND C\<close> would evaluate to \<open>A \<or> (B \<and> C)\<close>. At the
  assignment with only \<open>A\<close> true (bit 0) the parsed nodes evaluate to 0, while
  \<open>A \<or> (B \<and> C)\<close> is true.
\<close>

theorem or_and_counterexample:
  "parse_line empty_state (''A OR B AND C'' @ nl) =
     Next \<lparr>variable = [''A'', ''B'', ''C''],
           node = [\<lparr>Node.type = VARIABLE, id = 0\<rparr>, \<lparr>Node.type = VARIABLE, id = 1\<rparr>,
                   \<lparr>Node.type = OPERATOR, id = OP_OR\<rparr>, \<lparr>Node.type = VARIABLE, id = 2\<rparr>,
                   \<lparr>Node.type = OPERATOR, id = OP_AND\<rparr>],
           stack = [], first_token = False, slashvar_mode = False\<rparr>
   \<and> evaluate [\<lparr>Node.type = VARIABLE, id = 0\<rparr>, \<lparr>Node.type = VARIABLE, id = 1\<rparr>,
                   \<lparr>Node.type = OPERATOR, id = OP_OR\<rparr>, \<lparr>Node.type = VARIABLE, id = 2\<rparr>,
                   \<lparr>Node.type = OPERATOR, id = OP_AND\<rparr>] 1 = Some 0
   \<and> (bit (1 :: 64 word) 0 \<or> (bit (1 :: 64 word) 1 \<and> bit (1 :: 64 word) 2))"
  by code_simp

text \<open>
  C2, amended. The binary operators have one precedence and associate to the left: the
  line \<open>A OR B AND C\<close> is parsed to the postfix form of \<open>(A OR B) AND C\<close>, and for every
  assignment the evaluated result is \<open>(A \<or> B) \<and> C\<close>.
\<close>

theorem or_and_left_associative:
  "parse_line empty_state (''A OR B AND C'' @ nl) =
     Next \<lparr>variable = [''A'', ''B'', ''C''],
           node = [\<lparr>Node.type = VARIABLE, id = 0\<rparr>, \<lparr>Node.type = VARIABLE, id = 1\<rparr>,
                   \<lparr>Node.type = OPERATOR, id = OP_OR\<rparr>, \<lparr>Node.type = VARIABLE, id = 2\<rparr>,
                   \<lparr>Node.type = OPERATOR, id = OP_AND\<rparr>],
           stack = [], first_token = False, slashvar_mode = False\<rparr>
   \<and> (\<forall>bits. evaluate [\<lparr>Node.type = VARIABLE, id = 0\<rparr>, \<lparr>Node.type = VARIABLE, id = 1\<rparr>,
                   \<lparr>Node.type = OPERATOR, id = OP_OR\<rparr>, \<lparr>Node.type = VARIABLE, id = 2\<rparr>,
                   \<lparr>Node.type = OPERATOR, id = OP_AND\<rparr>] bits
               = Some (if (bit bits 0 \<or> bit bits 1) \<and> bit bits 2 then 1 else 0))"
proof (intro conjI allI)
  show "parse_line empty_state (''A OR B AND C'' @ nl) =
     Next \<lparr>variable = [''A'', ''B'', ''C''],
           node = [\<lparr>Node.type = VARIABLE, id = 0\<rparr>, \<lparr>Node.type = VARIABLE, id = 1\<rparr>,
                   \<lparr>Node.type = OPERATOR, id = OP_OR\<rparr>, \<lparr>Node.type = VARIABLE, id = 2\<rparr>,
                   \<lparr>Node.type = OPERATOR, id = OP_AND\<rparr>],
           stack = [], first_token = False, slashvar_mode = False\<rparr>"
    by code_simp
next
  fix bits :: "64 word"
  show "evaluate [\<lparr>Node.type = VARIABLE, id = 0\<rparr>, \<lparr>Node.type = VARIABLE, id = 1\<rparr>,
                   \<lparr>Node.type = OPERATOR, id = OP_OR\<rparr>, \<lparr>Node.type = VARIABLE, id = 2\<rparr>,
                   \<lparr>Node.type = OPERATOR, id = OP_AND\<rparr>] bits
               = Some (if (bit bits 0 \<or> bit bits 1) \<and> bit bits 2 then 1 else 0)"
    by (simp add: evaluate_def eval_node_variable eval_node_operator eval_node_not oper_rule_def oper_defs STACK_MAX_def)
qed

theorem or_and_left_associative_witness:
  "evaluate [\<lparr>Node.type = VARIABLE, id = 0\<rparr>, \<lparr>Node.type = VARIABLE, id = 1\<rparr>,
             \<lparr>Node.type = OPERATOR, id = OP_OR\<rparr>, \<lparr>Node.type = VARIABLE, id = 2\<rparr>,
             \<lparr>Node.type = OPERATOR, id = OP_AND\<rparr>] 6 = Some 1"
proof -
  have "evaluate [\<lparr>Node.type = VARIABLE, id = 0\<rparr>, \<lparr>Node.type = VARIABLE, id = 1\<rparr>,
             \<lparr>Node.type = OPERATOR, id = OP_OR\<rparr>, \<lparr>Node.type = VARIABLE, id = 2\<rparr>,
             \<lparr>Node.type = OPERATOR, id = OP_AND\<rparr>] 6
        = Some (if (bit (6 :: 64 word) 0 \<or> bit (6 :: 64 word) 1) \<and> bit (6 :: 64 word) 2
                then 1 else 0)"
    using or_and_left_associative by blast
  moreover have "(bit (6 :: 64 word) 0 \<or> bit (6 :: 64 word) 1) \<and> bit (6 :: 64 word) 2"
    by code_simp
  ultimately show ?thesis by simp
qed

text \<open>
  C6. NOT binds tighter than every binary operator. In the grammar of the specification
  (\<open>operand\<close> and \<open>expr\<close>) a NOT applies to the operand that follows it (a variable, a
  negated operand or an expression in parentheses), never to the result of a binary
  operator that is not in parentheses, and the binary operators associate to the left.
  For every line whose tokens are the tokens of an expression \<open>e\<close> of that grammar,
  whatever the spelling of its NOT and operator tokens, and that the parser consumes
  without an error, the value that \<open>evaluate\<close> returns on the parsed nodes is the value
  of \<open>e\<close>, for every assignment (with at most 31 variables \<open>evaluate\<close> does return
  one). For each spelling of NOT (\<open>NOT\<close>, \<open>not\<close>, \<open>!\<close>) and of the seven binary operators
  (the names and \<open>|\<close>, \<open>&\<close>, \<open>^\<close>, \<open>->\<close>, \<open>=\<close>), the line \<open>NOT A op B\<close> has the tokens of
  \<open>(NOT A) op B\<close> and is parsed to the nodes \<open>A NOT B op\<close>, and the line \<open>A op NOT B\<close>
  has the tokens of \<open>A op (NOT B)\<close> and is parsed to \<open>A B NOT op\<close>. For each of the
  seven operators the nodes \<open>A NOT B op\<close> evaluate to the rule of the operator on
  \<open>(\<not> A, B)\<close>. The line \<open>NOT A AND B\<close> is parsed to the postfix form of \<open>(NOT A) AND B\<close>,
  its value is \<open>\<not> A \<and> B\<close> for every assignment, and at \<open>A = 1\<close>, \<open>B = 1\<close> (assignment
  3) it is 0.
\<close>

theorem not_binds_tighter_than_binary_operators:
  "(node st = [] \<and> stack st = [] \<and> tokens (c_string line) = expr_tokens e
      \<and> parse_line st line = Next st'
    \<longrightarrow> \<not> slashvar_mode st'
        \<and> (\<forall>bits v. evaluate (node st') bits = Some v \<longrightarrow>
              v = (if expr_value (assignment (variable st') bits) e then 1 else 0))
        \<and> (length (variable st') \<le> 31 \<longrightarrow>
             (\<forall>bits. evaluate (node st') bits
                = Some (if expr_value (assignment (variable st') bits) e then 1 else 0))))
   \<and> list_all (\<lambda>n. list_all (\<lambda>op.
         0 \<le> oper_id op \<and> oper_id op < 7
         \<and> tokens (c_string (n @ '' A '' @ op @ '' B'' @ nl))
           = expr_tokens (Binary (Operand (Neg n (Var ''A''))) op (Var ''B''))
         \<and> parse_line empty_state (n @ '' A '' @ op @ '' B'' @ nl) =
             Next \<lparr>variable = [''A'', ''B''],
                   node = [\<lparr>Node.type = VARIABLE, id = 0\<rparr>, \<lparr>Node.type = NOT, id = 0\<rparr>,
                           \<lparr>Node.type = VARIABLE, id = 1\<rparr>, \<lparr>Node.type = OPERATOR, id = oper_id op\<rparr>],
                   stack = [], first_token = False, slashvar_mode = False\<rparr>
         \<and> tokens (c_string (''A '' @ op @ '' '' @ n @ '' B'' @ nl))
           = expr_tokens (Binary (Operand (Var ''A'')) op (Neg n (Var ''B'')))
         \<and> parse_line empty_state (''A '' @ op @ '' '' @ n @ '' B'' @ nl) =
             Next \<lparr>variable = [''A'', ''B''],
                   node = [\<lparr>Node.type = VARIABLE, id = 0\<rparr>, \<lparr>Node.type = VARIABLE, id = 1\<rparr>,
                           \<lparr>Node.type = NOT, id = 0\<rparr>, \<lparr>Node.type = OPERATOR, id = oper_id op\<rparr>],
                   stack = [], first_token = False, slashvar_mode = False\<rparr>)
       [''OR'', ''AND'', ''XOR'', ''NAND'', ''NOR'', ''IMP'', ''EQU'',
        ''|'', ''&'', ''^'', ''->'', ''=''])
       [''NOT'', ''not'', ''!'']
   \<and> (\<forall>k bits. 0 \<le> k \<and> k < 7 \<longrightarrow>
         evaluate [\<lparr>Node.type = VARIABLE, id = 0\<rparr>, \<lparr>Node.type = NOT, id = 0\<rparr>,
                   \<lparr>Node.type = VARIABLE, id = 1\<rparr>, \<lparr>Node.type = OPERATOR, id = k\<rparr>] bits
           = Some (if truth_rule k (\<not> bit bits 0) (bit bits 1) then 1 else 0))
   \<and> parse_line empty_state (''NOT A AND B'' @ nl) =
       Next \<lparr>variable = [''A'', ''B''],
             node = [\<lparr>Node.type = VARIABLE, id = 0\<rparr>, \<lparr>Node.type = NOT, id = 0\<rparr>,
                     \<lparr>Node.type = VARIABLE, id = 1\<rparr>, \<lparr>Node.type = OPERATOR, id = OP_AND\<rparr>],
             stack = [], first_token = False, slashvar_mode = False\<rparr>
   \<and> (\<forall>bits. evaluate [\<lparr>Node.type = VARIABLE, id = 0\<rparr>, \<lparr>Node.type = NOT, id = 0\<rparr>,
                   \<lparr>Node.type = VARIABLE, id = 1\<rparr>, \<lparr>Node.type = OPERATOR, id = OP_AND\<rparr>] bits
               = Some (if \<not> bit bits 0 \<and> bit bits 1 then 1 else 0))
   \<and> evaluate [\<lparr>Node.type = VARIABLE, id = 0\<rparr>, \<lparr>Node.type = NOT, id = 0\<rparr>,
                \<lparr>Node.type = VARIABLE, id = 1\<rparr>, \<lparr>Node.type = OPERATOR, id = OP_AND\<rparr>] 3 = Some 0"
proof (intro conjI impI allI)
  assume a: "node st = [] \<and> stack st = [] \<and> tokens (c_string line) = expr_tokens e
      \<and> parse_line st line = Next st'"
  then have n: "node st = []" and s: "stack st = []"
    and tk: "tokens (c_string line) = expr_tokens e" and pl: "parse_line st line = Next st'"
    by simp_all
  show "\<not> slashvar_mode st'"
    using n s tk pl by (rule grammar_line(1))
  show "v = (if expr_value (assignment (variable st') bits) e then 1 else 0)"
    if "evaluate (node st') bits = Some v" for bits v
    using n s tk pl that by (rule grammar_line(2))
  show "evaluate (node st') bits
          = Some (if expr_value (assignment (variable st') bits) e then 1 else 0)"
    if "length (variable st') \<le> 31" for bits
    using n s tk pl that by (rule grammar_line(3))
next
  from negation_NOT negation_not_lower negation_bang
  show "list_all (\<lambda>n. list_all (\<lambda>op.
         0 \<le> oper_id op \<and> oper_id op < 7
         \<and> tokens (c_string (n @ '' A '' @ op @ '' B'' @ nl))
           = expr_tokens (Binary (Operand (Neg n (Var ''A''))) op (Var ''B''))
         \<and> parse_line empty_state (n @ '' A '' @ op @ '' B'' @ nl) =
             Next \<lparr>variable = [''A'', ''B''],
                   node = [\<lparr>Node.type = VARIABLE, id = 0\<rparr>, \<lparr>Node.type = NOT, id = 0\<rparr>,
                           \<lparr>Node.type = VARIABLE, id = 1\<rparr>, \<lparr>Node.type = OPERATOR, id = oper_id op\<rparr>],
                   stack = [], first_token = False, slashvar_mode = False\<rparr>
         \<and> tokens (c_string (''A '' @ op @ '' '' @ n @ '' B'' @ nl))
           = expr_tokens (Binary (Operand (Var ''A'')) op (Neg n (Var ''B'')))
         \<and> parse_line empty_state (''A '' @ op @ '' '' @ n @ '' B'' @ nl) =
             Next \<lparr>variable = [''A'', ''B''],
                   node = [\<lparr>Node.type = VARIABLE, id = 0\<rparr>, \<lparr>Node.type = VARIABLE, id = 1\<rparr>,
                           \<lparr>Node.type = NOT, id = 0\<rparr>, \<lparr>Node.type = OPERATOR, id = oper_id op\<rparr>],
                   stack = [], first_token = False, slashvar_mode = False\<rparr>)
       [''OR'', ''AND'', ''XOR'', ''NAND'', ''NOR'', ''IMP'', ''EQU'',
        ''|'', ''&'', ''^'', ''->'', ''=''])
       [''NOT'', ''not'', ''!'']"
    by simp
next
  fix k :: int and bits :: "64 word"
  assume "0 \<le> k \<and> k < 7"
  then have k: "0 \<le> k" "k < 7" by simp_all
  have r: "oper_rule k (if \<not> bit bits 0 then 1 else 0) (if bit bits 1 then 1 else 0)
             = Some (if truth_rule k (\<not> bit bits 0) (bit bits 1) then 1 else 0)"
    using k by (rule oper_rule_truth)
  show "evaluate [\<lparr>Node.type = VARIABLE, id = 0\<rparr>, \<lparr>Node.type = NOT, id = 0\<rparr>,
                   \<lparr>Node.type = VARIABLE, id = 1\<rparr>, \<lparr>Node.type = OPERATOR, id = k\<rparr>] bits
           = Some (if truth_rule k (\<not> bit bits 0) (bit bits 1) then 1 else 0)"
    using r
    by (cases "bit bits 0")
      (simp_all add: evaluate_def eval_node_variable eval_node_operator eval_node_not
        STACK_MAX_def)
next
  show "parse_line empty_state (''NOT A AND B'' @ nl) =
       Next \<lparr>variable = [''A'', ''B''],
             node = [\<lparr>Node.type = VARIABLE, id = 0\<rparr>, \<lparr>Node.type = NOT, id = 0\<rparr>,
                     \<lparr>Node.type = VARIABLE, id = 1\<rparr>, \<lparr>Node.type = OPERATOR, id = OP_AND\<rparr>],
             stack = [], first_token = False, slashvar_mode = False\<rparr>"
    by code_simp
next
  fix bits :: "64 word"
  show "evaluate [\<lparr>Node.type = VARIABLE, id = 0\<rparr>, \<lparr>Node.type = NOT, id = 0\<rparr>,
                   \<lparr>Node.type = VARIABLE, id = 1\<rparr>, \<lparr>Node.type = OPERATOR, id = OP_AND\<rparr>] bits
               = Some (if \<not> bit bits 0 \<and> bit bits 1 then 1 else 0)"
    by (simp add: evaluate_def eval_node_variable eval_node_operator eval_node_not oper_rule_def oper_defs STACK_MAX_def)
next
  show "evaluate [\<lparr>Node.type = VARIABLE, id = 0\<rparr>, \<lparr>Node.type = NOT, id = 0\<rparr>,
                \<lparr>Node.type = VARIABLE, id = 1\<rparr>, \<lparr>Node.type = OPERATOR, id = OP_AND\<rparr>] 3 = Some 0"
    by code_simp
qed

theorem not_binds_tighter_than_binary_operators_witness:
  "node empty_state = [] \<and> stack empty_state = []
   \<and> tokens (c_string (''!A -> B'' @ nl))
       = expr_tokens (Binary (Operand (Neg ''!'' (Var ''A''))) ''->'' (Var ''B''))
   \<and> parse_line empty_state (''!A -> B'' @ nl) =
       Next \<lparr>variable = [''A'', ''B''],
             node = [\<lparr>Node.type = VARIABLE, id = 0\<rparr>, \<lparr>Node.type = NOT, id = 0\<rparr>,
                     \<lparr>Node.type = VARIABLE, id = 1\<rparr>, \<lparr>Node.type = OPERATOR, id = OP_IMP\<rparr>],
             stack = [], first_token = False, slashvar_mode = False\<rparr>
   \<and> evaluate [\<lparr>Node.type = VARIABLE, id = 0\<rparr>, \<lparr>Node.type = NOT, id = 0\<rparr>,
                \<lparr>Node.type = VARIABLE, id = 1\<rparr>, \<lparr>Node.type = OPERATOR, id = OP_IMP\<rparr>] 0 = Some 0"
proof -
  let ?N = "[\<lparr>Node.type = VARIABLE, id = 0\<rparr>, \<lparr>Node.type = NOT, id = 0\<rparr>,
             \<lparr>Node.type = VARIABLE, id = 1\<rparr>, \<lparr>Node.type = OPERATOR, id = OP_IMP\<rparr>]"
  let ?S = "\<lparr>variable = [''A'', ''B''], node = ?N,
             stack = [], first_token = False, slashvar_mode = False\<rparr>"
  let ?e = "Binary (Operand (Neg ''!'' (Var ''A''))) ''->'' (Var ''B'')"
  have h1: "node empty_state = []" and h2: "stack empty_state = []"
    by (simp_all add: empty_state_def)
  have h3: "tokens (c_string (''!A -> B'' @ nl)) = expr_tokens ?e"
    by code_simp
  have h4: "parse_line empty_state (''!A -> B'' @ nl) = Next ?S"
    by code_simp
  have h5: "length (variable ?S) \<le> 31"
    by simp
  have v: "(if expr_value (assignment (variable ?S) 0) ?e then 1 else 0 :: int) = 0"
    by code_simp
  from not_binds_tighter_than_binary_operators
         [of empty_state "''!A -> B'' @ nl" ?e ?S, THEN conjunct1] h1 h2 h3 h4 h5
  have "evaluate (node ?S) 0
          = Some (if expr_value (assignment (variable ?S) 0) ?e then 1 else 0)"
    by blast
  with v have "evaluate ?N 0 = Some 0" by simp
  with h1 h2 h3 h4 show ?thesis by (intro conjI)
qed

subsection \<open>The table\<close>

text \<open>
  C8. When the check at assignment 0 passes and there are \<open>n \<le> 20\<close> variables,
  \<open>print_table\<close> writes the header and then exactly \<open>2 ^ n\<close> rows, for the assignments
  \<open>2 ^ n - 1\<close> down to 0 in this order; the first row shows every variable true and the
  last row every variable false.
\<close>

theorem table_rows_descending:
  assumes "length vars \<le> 20" and "evaluate nodes 0 = Some v" and "0 \<le> v"
  shows "print_table vars nodes =
           Stdout (header vars) #
           map (\<lambda>k. Stdout (row_text vars nodes (of_nat k))) (rev [0..<2 ^ length vars])
       \<and> length (print_table vars nodes) = 1 + 2 ^ length vars
       \<and> (\<exists>c. row_text vars nodes (of_nat (2 ^ length vars - 1))
               = concat (map (\<lambda>v. cell (length v) CHR ''T'') vars) @ '' '' @ [c] @ nl)
       \<and> (\<exists>c. row_text vars nodes (of_nat 0)
               = concat (map (\<lambda>v. cell (length v) CHR ''F'') vars) @ '' '' @ [c] @ nl)"
proof -
  have pt: "print_table vars nodes =
           Stdout (header vars) #
           map (\<lambda>k. Stdout (row_text vars nodes (of_nat k))) (rev [0..<2 ^ length vars])"
    using assms by (intro print_table_complete [of vars nodes v]) simp_all
  have m: "(of_nat (2 ^ length vars - 1) :: 64 word) = mask (length vars)"
    by (simp add: mask_eq_exp_minus_1 of_nat_diff)
  have "bit (of_nat (2 ^ length vars - 1) :: 64 word) b = True" if "b < length vars" for b
    unfolding m using that assms(1) by (simp add: bit_mask_iff)
  then have top: "concat (map (\<lambda>(b, v). cell (length v)
            (if bit (of_nat (2 ^ length vars - 1) :: 64 word) b then CHR ''T'' else CHR ''F''))
            (enumerate 0 vars))
       = concat (map (\<lambda>v. cell (length v) (if True then CHR ''T'' else CHR ''F'')) vars)"
    by (rule cells_all)
  have "bit (of_nat 0 :: 64 word) b = False" for b
    by simp
  then have bot: "concat (map (\<lambda>(b, v). cell (length v)
            (if bit (of_nat 0 :: 64 word) b then CHR ''T'' else CHR ''F''))
            (enumerate 0 vars))
       = concat (map (\<lambda>v. cell (length v) (if False then CHR ''T'' else CHR ''F'')) vars)"
    by (rule cells_all)
  show ?thesis
    using pt top bot by (simp add: row_text_def)
qed

theorem table_rows_descending_witness:
  "length [''A'', ''B''] \<le> 20
   \<and> evaluate [\<lparr>Node.type = VARIABLE, id = 0\<rparr>, \<lparr>Node.type = VARIABLE, id = 1\<rparr>,
                \<lparr>Node.type = OPERATOR, id = OP_XOR\<rparr>] 0 = Some 0
   \<and> print_table [''A'', ''B'']
         [\<lparr>Node.type = VARIABLE, id = 0\<rparr>, \<lparr>Node.type = VARIABLE, id = 1\<rparr>,
          \<lparr>Node.type = OPERATOR, id = OP_XOR\<rparr>]
       = [Stdout (''A B '' @ nl), Stdout (''T T  F'' @ nl), Stdout (''F T  T'' @ nl),
          Stdout (''T F  T'' @ nl), Stdout (''F F  F'' @ nl)]"
proof -
  let ?N = "[\<lparr>Node.type = VARIABLE, id = 0\<rparr>, \<lparr>Node.type = VARIABLE, id = 1\<rparr>,
             \<lparr>Node.type = OPERATOR, id = OP_XOR\<rparr>]"
  have h1: "length [''A'', ''B''] \<le> 20" by simp
  have h2: "evaluate ?N 0 = Some 0" by code_simp
  have h3: "(0::int) \<le> 0" by simp
  have e: "Stdout (header [''A'', ''B'']) #
           map (\<lambda>k. Stdout (row_text [''A'', ''B''] ?N (of_nat k))) (rev [0..<2 ^ length [''A'', ''B'']])
         = [Stdout (''A B '' @ nl), Stdout (''T T  F'' @ nl), Stdout (''F T  T'' @ nl),
            Stdout (''T F  T'' @ nl), Stdout (''F F  F'' @ nl)]"
    by code_simp
  have "print_table [''A'', ''B''] ?N
       = [Stdout (''A B '' @ nl), Stdout (''T T  F'' @ nl), Stdout (''F T  T'' @ nl),
          Stdout (''T F  T'' @ nl), Stdout (''F F  F'' @ nl)]"
    using table_rows_descending [OF h1 h2 h3, THEN conjunct1] e by (rule trans)
  with h1 h2 show ?thesis by (intro conjI)
qed

text \<open>
  What \<open>print_table\<close> does write. It evaluates once, at assignment 0, before it writes
  anything; when that evaluation fails it writes the error of the failure (overflow,
  underflow or values left on the stack) and nothing of the table. When anything of the
  table is written, no evaluation of a row can fail and no error is written. For every
  line, an error message and text of a table are never written together. With at most
  30 variables the table is written whole.
\<close>

lemma table_whole_or_absent:
  "(evaluate nodes 0 = Some (- 1) \<longrightarrow>
      print_table vars nodes = [Stderr (''error: stack overflow'' @ nl)])
   \<and> (evaluate nodes 0 = Some (- 2) \<longrightarrow>
      print_table vars nodes = [Stderr (''error: stack underflow'' @ nl)])
   \<and> (evaluate nodes 0 = Some (- 3) \<longrightarrow>
      print_table vars nodes = [Stderr (''error: stack not empty'' @ nl)])
   \<and> (\<forall>fail. evaluate nodes 0 = Some fail \<and> fail < 0 \<longrightarrow>
      fail = - 1 \<or> fail = - 2 \<or> fail = - 3)
   \<and> ((\<exists>s. Stdout s \<in> set (print_table vars nodes)) \<longrightarrow>
      (\<forall>i. evaluate nodes i = Some 0 \<or> evaluate nodes i = Some 1)
      \<and> (\<forall>msg. Stderr msg \<notin> set (print_table vars nodes))
      \<and> (length vars \<le> 30 \<longrightarrow>
           print_table vars nodes =
             Stdout (header vars) #
             map (\<lambda>k. Stdout (row_text vars nodes (of_nat k))) (rev [0..<2 ^ length vars])))
   \<and> (\<forall>msg s. Stderr msg \<in> set (fst (process_line st line))
         \<and> Stdout s \<in> set (fst (process_line st line)) \<longrightarrow> s = nl)
   \<and> (case process_line st line of
        (evs, next_state) \<Rightarrow>
          (\<forall>s. Stdout s \<in> set evs \<longrightarrow> s = nl)
          \<or> Undefined \<in> set evs
          \<or> (\<exists>vs ns. evs =
                (Stdout (header vs) #
                 map (\<lambda>k. Stdout (row_text vs ns (of_nat k))) (rev [0..<2 ^ length vs]))
                @ [Stdout nl]))
   \<and> (node st = [] \<and> stack st = []
        \<and> (\<forall>st'. parse_line st line = Next st' \<longrightarrow> length (variable st') \<le> 30)
      \<longrightarrow> Undefined \<notin> set (fst (process_line st line)))"
proof (intro conjI impI allI)
  assume "node st = [] \<and> stack st = []
        \<and> (\<forall>st'. parse_line st line = Next st' \<longrightarrow> length (variable st') \<le> 30)"
  then show "Undefined \<notin> set (fst (process_line st line))"
    by (intro process_line_defined) simp_all
next
  fix msg s
  assume "Stderr msg \<in> set (fst (process_line st line))
         \<and> Stdout s \<in> set (fst (process_line st line))"
  then show "s = nl"
    using process_line_error_no_table by blast
next
  fix fail
  assume "evaluate nodes 0 = Some fail \<and> fail < 0"
  then show "fail = - 1 \<or> fail = - 2 \<or> fail = - 3"
    using evaluate_range [of nodes 0 fail] by auto
next
  assume ex: "\<exists>s. Stdout s \<in> set (print_table vars nodes)"
  then obtain v where v: "evaluate nodes 0 = Some v" "0 \<le> v"
    by (cases "evaluate nodes 0") (auto simp: print_table_def split: if_splits)
  then show "evaluate nodes i = Some 0 \<or> evaluate nodes i = Some 1" for i
    by (rule evaluate_bool)
  show "Stderr msg \<notin> set (print_table vars nodes)" for msg
    using ex print_table_stdout_or_stderr by blast
  assume "length vars \<le> 30"
  then show "print_table vars nodes =
             Stdout (header vars) #
             map (\<lambda>k. Stdout (row_text vars nodes (of_nat k))) (rev [0..<2 ^ length vars])"
    using v by (rule print_table_complete)
next
  show "case process_line st line of
        (evs, next_state) \<Rightarrow>
          (\<forall>s. Stdout s \<in> set evs \<longrightarrow> s = nl)
          \<or> Undefined \<in> set evs
          \<or> (\<exists>vs ns. evs =
                (Stdout (header vs) #
                 map (\<lambda>k. Stdout (row_text vs ns (of_nat k))) (rev [0..<2 ^ length vs]))
                @ [Stdout nl])"
  proof (cases "parse_line st line")
    case (Next st')
    show ?thesis
    proof (cases "slashvar_mode st'")
      case True
      with Next show ?thesis by (simp add: process_line_def)
    next
      case False
      from print_table_cases [of "variable st'" "node st'"] Next False show ?thesis
        by (elim disjE exE) (auto simp: process_line_def Let_def)
    qed
  next
    case (Cleanup msg)
    then show ?thesis by (simp add: process_line_def)
  next
    case (Die msg)
    then show ?thesis by (simp add: process_line_def)
  qed
qed (simp_all add: print_table_def)

lemma print_table_beyond_30:
  assumes "30 < length vars" and "evaluate nodes 0 = Some v" and "0 \<le> v"
  shows "print_table vars nodes = [Stdout (header vars), Undefined]"
  using assms by (simp add: print_table_def shl_int_1)

text \<open>
  C9. A partial table is printed for some input lines. The check at assignment 0 comes
  before any output, and with at most 30 variables the table is written whole or not at
  all (\<open>table_whole_or_absent\<close>). With more than 30 variables the check can pass; the
  header is then written, and the first assignment of the loop over the rows,
  \<open>(1 << num_vars) - 1\<close>, shifts a 32-bit \<open>int\<close> by 31 or more, which C leaves undefined
  (\<open>print_table_beyond_30\<close>): what follows the header is not the table. This is the shift
  of C5 again. The line \<open>a\<close> after a directive that names 33 variables writes the header
  and reaches the undefined shift, with every evaluation defined; so does the line
  \<open>a|b|...|z|A|B|C|D|E\<close> with 31 variables.
\<close>

theorem table_cut_short_by_undefined_shift:
  "main [''/ a b c d e f g h i j k l m n o p q r s t u v w x y z A B C D E F G'' @ nl,
         ''a'' @ nl]
     = [Stdout (''a b c d e f g h i j k l m n o p q r s t u v w x y z A B C D E F G '' @ nl),
        Undefined]
   \<and> main [''a|b|c|d|e|f|g|h|i|j|k|l|m|n|o|p|q|r|s|t|u|v|w|x|y|z|A|B|C|D|E'' @ nl]
     = [Stdout (''a b c d e f g h i j k l m n o p q r s t u v w x y z A B C D E '' @ nl),
        Undefined]
   \<and> shl_int 1 33 = None
   \<and> shl_int 1 31 = None"
proof (intro conjI)
  show "main [''/ a b c d e f g h i j k l m n o p q r s t u v w x y z A B C D E F G'' @ nl,
         ''a'' @ nl]
     = [Stdout (''a b c d e f g h i j k l m n o p q r s t u v w x y z A B C D E F G '' @ nl),
        Undefined]"
    by code_simp
  show "main [''a|b|c|d|e|f|g|h|i|j|k|l|m|n|o|p|q|r|s|t|u|v|w|x|y|z|A|B|C|D|E'' @ nl]
     = [Stdout (''a b c d e f g h i j k l m n o p q r s t u v w x y z A B C D E '' @ nl),
        Undefined]"
    by code_simp
qed (simp_all add: shl_int_1)

subsection \<open>Parentheses\<close>

text \<open>
  C7 as stated: every line with a \<open>)\<close> that has no \<open>(\<close> on the stack would be reported as
  mismatched parentheses. In the line \<open>/ )\<close> the \<open>)\<close> is met with an empty stack, and
  the program reports a non-variable in a slashvar line instead (then goes on with the
  next line).
\<close>

theorem unbalanced_in_slashvar_line_counterexample:
  "config_after 1 (empty_state\<lparr>first_token := True, slashvar_mode := False\<rparr>) (c_string (''/ )'' @ nl))
     = Some (\<lparr>variable = [], node = [], stack = [], first_token = False, slashvar_mode = True\<rparr>,
             '' )'' @ nl)
   \<and> next_token ('' )'' @ nl) = Some (\<lparr>text = '')'', type = RPAREN\<rparr>, nl)
   \<and> main [''/ )'' @ nl, ''A'' @ nl] =
       [Stderr (''error: non-variable '' @ [CHR 0x22] @ '')'' @ [CHR 0x22] @ '' in slashvar line'' @ nl),
        Stdout nl,
        Stdout (''A '' @ nl), Stdout (''T  T'' @ nl), Stdout (''F  F'' @ nl), Stdout nl,
        Exit 0]"
  by code_simp

text \<open>
  C7, amended. On a line that is not a slashvar line, when the parser, having handled
  \<open>k\<close> tokens without error, meets a \<open>)\<close> with no \<open>(\<close> on the stack, or the end of the line
  with a \<open>(\<close> on the stack, the program writes the mismatched-parentheses error, no
  table (only the separating empty line), and goes on with the next line from the
  cleared state.
\<close>

theorem mismatched_parentheses_reported:
  assumes "stack st0 = []"
    and "config_after k (st0\<lparr>first_token := True, slashvar_mode := False\<rparr>) (c_string line)
           = Some (st, inp)"
    and "\<not> slashvar_mode st"
    and "(\<exists>t rest. next_token inp = Some (t, rest) \<and> Token.type t = RPAREN
                   \<and> list_all (\<lambda>x. Token.type x \<noteq> LPAREN) (stack st))
         \<or> (next_token inp = None \<and> list_ex (\<lambda>x. Token.type x = LPAREN) (stack st))"
  shows "process_line st0 line =
           ([Stderr (''error: mismatched parentheses'' @ nl), Stdout nl], Some empty_state)
       \<and> run st0 (line # lines) =
           [Stderr (''error: mismatched parentheses'' @ nl), Stdout nl] @ run empty_state lines"
proof -
  let ?start = "st0\<lparr>first_token := True, slashvar_mode := False\<rparr>"
  have ok: "stack_ok (stack st)"
    using assms(1,2) by (intro config_after_stack_ok [of ?start k "c_string line" st inp])
      (simp_all add: stack_ok_def)
  have tl: "token_loop ?start (c_string line) = token_loop st inp"
    using assms(2) by (rule config_after_token_loop)
  have "parse_line st0 line = Cleanup (''error: mismatched parentheses'' @ nl)"
    using assms(4)
  proof (elim disjE exE conjE)
    fix t rest
    assume nt: "next_token inp = Some (t, rest)" and r: "Token.type t = RPAREN"
      and no: "list_all (\<lambda>x. Token.type x \<noteq> LPAREN) (stack st)"
    from ok no obtain st1 where "pop_to_lparen (stack st) st = Next st1" "stack st1 = []"
      using pop_to_lparen_no_lparen by blast
    with r assms(3) have "handle_token st t = Cleanup (''error: mismatched parentheses'' @ nl)"
      by (simp add: handle_token_def)
    with nt r have "token_loop st inp = Cleanup (''error: mismatched parentheses'' @ nl)"
      by (subst token_loop.simps) simp
    with tl show ?thesis by (simp add: parse_line_def)
  next
    assume nt: "next_token inp = None"
      and ex: "list_ex (\<lambda>x. Token.type x = LPAREN) (stack st)"
    from nt have "token_loop st inp = Next st"
      by (subst token_loop.simps) simp
    moreover from ok ex have "drain (stack st) st = Cleanup (''error: mismatched parentheses'' @ nl)"
      by (rule drain_lparen)
    ultimately show ?thesis
      using tl assms(3) by (simp add: parse_line_def)
  qed
  then have "process_line st0 line =
      ([Stderr (''error: mismatched parentheses'' @ nl), Stdout nl], Some empty_state)"
    by (simp add: process_line_def)
  then show ?thesis by simp
qed

theorem mismatched_parentheses_reported_witness:
  "stack empty_state = []
   \<and> config_after 4 (empty_state\<lparr>first_token := True, slashvar_mode := False\<rparr>)
        (c_string (''(A AND B'' @ nl))
       = Some (\<lparr>variable = [''A'', ''B''],
                node = [\<lparr>Node.type = VARIABLE, id = 0\<rparr>, \<lparr>Node.type = VARIABLE, id = 1\<rparr>],
                stack = [\<lparr>text = ''AND'', type = OPERATOR\<rparr>, \<lparr>text = ''('', type = LPAREN\<rparr>],
                first_token = False, slashvar_mode = False\<rparr>, nl)
   \<and> next_token nl = None
   \<and> main [''(A AND B'' @ nl, ''A'' @ nl] =
       [Stderr (''error: mismatched parentheses'' @ nl), Stdout nl] @ run empty_state [''A'' @ nl]
   \<and> config_after 3 (empty_state\<lparr>first_token := True, slashvar_mode := False\<rparr>)
        (c_string (''A AND B)'' @ nl))
       = Some (\<lparr>variable = [''A'', ''B''],
                node = [\<lparr>Node.type = VARIABLE, id = 0\<rparr>, \<lparr>Node.type = VARIABLE, id = 1\<rparr>],
                stack = [\<lparr>text = ''AND'', type = OPERATOR\<rparr>],
                first_token = False, slashvar_mode = False\<rparr>, '')'' @ nl)
   \<and> next_token ('')'' @ nl) = Some (\<lparr>text = '')'', type = RPAREN\<rparr>, nl)
   \<and> main [''A AND B)'' @ nl, ''A'' @ nl] =
       [Stderr (''error: mismatched parentheses'' @ nl), Stdout nl] @ run empty_state [''A'' @ nl]"
proof -
  let ?start = "empty_state\<lparr>first_token := True, slashvar_mode := False\<rparr>"
  let ?st1 = "\<lparr>variable = [''A'', ''B''],
                node = [\<lparr>Node.type = VARIABLE, id = 0\<rparr>, \<lparr>Node.type = VARIABLE, id = 1\<rparr>],
                stack = [\<lparr>text = ''AND'', type = OPERATOR\<rparr>, \<lparr>text = ''('', type = LPAREN\<rparr>],
                first_token = False, slashvar_mode = False\<rparr>"
  let ?st2 = "\<lparr>variable = [''A'', ''B''],
                node = [\<lparr>Node.type = VARIABLE, id = 0\<rparr>, \<lparr>Node.type = VARIABLE, id = 1\<rparr>],
                stack = [\<lparr>text = ''AND'', type = OPERATOR\<rparr>],
                first_token = False, slashvar_mode = False\<rparr>"
  have e: "stack empty_state = []"
    by (simp add: empty_state_def)
  have c1: "config_after 4 ?start (c_string (''(A AND B'' @ nl)) = Some (?st1, nl)"
    by code_simp
  have n1: "next_token nl = None"
    by code_simp
  have c2: "config_after 3 ?start (c_string (''A AND B)'' @ nl)) = Some (?st2, '')'' @ nl)"
    by code_simp
  have n2: "next_token ('')'' @ nl) = Some (\<lparr>text = '')'', type = RPAREN\<rparr>, nl)"
    by code_simp
  have m1: "run empty_state ((''(A AND B'' @ nl) # [''A'' @ nl]) =
       [Stderr (''error: mismatched parentheses'' @ nl), Stdout nl] @ run empty_state [''A'' @ nl]"
    using mismatched_parentheses_reported [OF e c1, of "[''A'' @ nl]"] n1 by simp
  have m2: "run empty_state ((''A AND B)'' @ nl) # [''A'' @ nl]) =
       [Stderr (''error: mismatched parentheses'' @ nl), Stdout nl] @ run empty_state [''A'' @ nl]"
    using mismatched_parentheses_reported [OF e c2, of "[''A'' @ nl]"] n2 by simp
  show ?thesis
    using e c1 n1 c2 n2 m1 m2 unfolding main_def by (intro conjI)
qed

subsection \<open>The variable-order directive\<close>

text \<open>
  C3 as stated: the order set by a slashvar line would hold for every expression line
  up to the next slashvar line. After \<open>/ B A\<close> the first table of \<open>A AND B\<close> has the columns
  \<open>B A\<close>, the second one has the columns \<open>A B\<close>.
\<close>

theorem directive_order_counterexample:
  "main [''/ B A'' @ nl, ''A AND B'' @ nl, ''A AND B'' @ nl] =
     [Stdout (''B A '' @ nl), Stdout (''T T  T'' @ nl), Stdout (''F T  F'' @ nl),
      Stdout (''T F  F'' @ nl), Stdout (''F F  F'' @ nl), Stdout nl,
      Stdout (''A B '' @ nl), Stdout (''T T  T'' @ nl), Stdout (''F T  F'' @ nl),
      Stdout (''T F  F'' @ nl), Stdout (''F F  F'' @ nl), Stdout nl,
      Exit 0]"
  by code_simp

text \<open>
  C3, amended. A slashvar line (a \<open>/\<close>, then variable names only, with at most
  \<open>VAR_MAX\<close> different names) clears the registry and fills it with the names in the
  order of their first appearance on the line, and writes nothing. This order holds for
  the next line only: the registry of that line, if it is an expression line, begins
  with these names, and every line that is not a slashvar line leaves the registry
  empty.
\<close>

theorem variable_order_directive:
  assumes "tokens (c_string line) = slash # ts"
    and "Token.type slash = SLASHVARS"
    and "list_all (\<lambda>t. Token.type t = VARIABLE) ts"
    and "length (first_seen (map text ts)) \<le> VAR_MAX"
  shows "process_line st line =
           ([], Some (st\<lparr>variable := first_seen (map text ts), first_token := False,
                          slashvar_mode := True\<rparr>))
       \<and> (\<forall>line2 st2.
            parse_line (st\<lparr>variable := first_seen (map text ts), first_token := False,
                           slashvar_mode := True\<rparr>) line2 = Next st2
            \<and> \<not> slashvar_mode st2
            \<longrightarrow> (\<exists>ws. variable st2 = first_seen (map text ts) @ ws))
       \<and> (\<forall>st1 line2 evs st2.
            process_line st1 line2 = (evs, Some st2) \<and> \<not> slashvar_mode st2
            \<longrightarrow> st2 = empty_state)"
proof (intro conjI allI impI)
  show "process_line st line =
           ([], Some (st\<lparr>variable := first_seen (map text ts), first_token := False,
                          slashvar_mode := True\<rparr>))"
    using directive_line [OF assms, of st] by (simp add: process_line_def)
next
  fix line2 st2
  assume "parse_line (st\<lparr>variable := first_seen (map text ts), first_token := False,
                           slashvar_mode := True\<rparr>) line2 = Next st2
            \<and> \<not> slashvar_mode st2"
  then show "\<exists>ws. variable st2 = first_seen (map text ts) @ ws"
    using parse_line_appends
      [of "st\<lparr>variable := first_seen (map text ts), first_token := False,
              slashvar_mode := True\<rparr>" line2 st2]
    by simp
next
  fix st1 line2 evs st2
  assume a: "process_line st1 line2 = (evs, Some st2) \<and> \<not> slashvar_mode st2"
  then show "st2 = empty_state"
    by (cases "parse_line st1 line2")
      (auto simp: process_line_def Let_def split: if_splits)
qed

theorem variable_order_directive_witness:
  "tokens (c_string (''/ B A B'' @ nl)) =
     \<lparr>text = ''/'', type = SLASHVARS\<rparr> #
     [\<lparr>text = ''B'', type = VARIABLE\<rparr>, \<lparr>text = ''A'', type = VARIABLE\<rparr>,
      \<lparr>text = ''B'', type = VARIABLE\<rparr>]
   \<and> first_seen [''B'', ''A'', ''B''] = [''B'', ''A'']
   \<and> process_line empty_state (''/ B A B'' @ nl) =
       ([], Some \<lparr>variable = [''B'', ''A''], node = [], stack = [], first_token = False,
                  slashvar_mode = True\<rparr>)"
proof -
  let ?ts = "[\<lparr>text = ''B'', type = VARIABLE\<rparr>, \<lparr>text = ''A'', type = VARIABLE\<rparr>,
              \<lparr>text = ''B'', type = VARIABLE\<rparr>]"
  have h1: "tokens (c_string (''/ B A B'' @ nl)) = \<lparr>text = ''/'', type = SLASHVARS\<rparr> # ?ts"
    by code_simp
  have h2: "Token.type \<lparr>text = ''/'', type = SLASHVARS\<rparr> = SLASHVARS"
    by simp
  have h3: "list_all (\<lambda>t. Token.type t = VARIABLE) ?ts"
    by simp
  have fs: "first_seen [''B'', ''A'', ''B''] = [''B'', ''A'']"
    by code_simp
  have h4: "length (first_seen (map text ?ts)) \<le> VAR_MAX"
    using fs by (simp add: VAR_MAX_def)
  have "process_line empty_state (''/ B A B'' @ nl) =
       ([], Some (empty_state\<lparr>variable := first_seen (map text ?ts), first_token := False,
                  slashvar_mode := True\<rparr>))"
    using variable_order_directive [OF h1 h2 h3 h4, of empty_state] by blast
  then have "process_line empty_state (''/ B A B'' @ nl) =
       ([], Some \<lparr>variable = [''B'', ''A''], node = [], stack = [], first_token = False,
                  slashvar_mode = True\<rparr>)"
    using fs by (simp add: empty_state_def)
  with h1 fs show ?thesis by (intro conjI)
qed

subsection \<open>Lines that are not expressions\<close>

text \<open>
  C4 as stated: a line that the parser consumes without an error would always evaluate
  with exactly one value left on the stack. The parser consumes the line \<open>A B\<close> without
  an error; its two nodes leave two values, \<open>evaluate\<close> returns -3 and the program
  reports that the stack is not empty.
\<close>

theorem leftover_stack_counterexample:
  "parse_line empty_state (''A B'' @ nl) =
     Next \<lparr>variable = [''A'', ''B''],
           node = [\<lparr>Node.type = VARIABLE, id = 0\<rparr>, \<lparr>Node.type = VARIABLE, id = 1\<rparr>],
           stack = [], first_token = False, slashvar_mode = False\<rparr>
   \<and> evaluate [\<lparr>Node.type = VARIABLE, id = 0\<rparr>, \<lparr>Node.type = VARIABLE, id = 1\<rparr>] 0 = Some (- 3)
   \<and> main [''A B'' @ nl] = [Stderr (''error: stack not empty'' @ nl), Stdout nl, Exit 0]"
  by code_simp

text \<open>
  C4, amended. Take a line that the parser consumes without an error (from the state at
  the start of a line: no nodes, empty operator stack) and that is not a slashvar line.
  If its tokens have the form of an infix expression, the nodes leave exactly one value
  on the stack and \<open>evaluate\<close> never returns a failure code, for any assignment; with
  at most 31 variables it returns 0 or 1. Whatever the form of the line, with at most 31
  variables \<open>evaluate\<close> returns 0, 1 or one of its failure codes -1, -2, -3, and a
  failure code is the same for every assignment. The parser does not check the form,
  so each failure is reached from user input: the line \<open>A B\<close>, the line \<open>AND\<close> and the
  line that repeats the variable \<open>A\<close> 129 times are consumed without an error,
  \<open>evaluate\<close> returns -3, -2 and -1 on them, and the program reports a stack that is not
  empty, an underflow and an overflow. The form is sufficient, not necessary: the line
  \<open>A NOT\<close> does not have it and its table is printed.
\<close>

theorem expression_leaves_one_value:
  "(node st = [] \<and> stack st = [] \<and> parse_line st line = Next st' \<and> \<not> slashvar_mode st'
    \<longrightarrow> (expression_form EXPR (map Token.type (tokens (c_string line))) \<longrightarrow>
           depth_after (node st') 0 = Some 1
           \<and> (\<forall>bits v. evaluate (node st') bits = Some v \<longrightarrow> v = 0 \<or> v = 1)
           \<and> (length (variable st') \<le> 31 \<longrightarrow>
                (\<forall>bits. evaluate (node st') bits = Some 0 \<or> evaluate (node st') bits = Some 1)))
        \<and> (length (variable st') \<le> 31 \<longrightarrow>
             (\<exists>v. evaluate (node st') 0 = Some v
                  \<and> (v = - 3 \<or> v = - 2 \<or> v = - 1 \<or> v = 0 \<or> v = 1)
                  \<and> (\<forall>bits. v < 0 \<longrightarrow> evaluate (node st') bits = Some v))))
   \<and> (\<exists>st'. parse_line empty_state (''A B'' @ nl) = Next st' \<and> \<not> slashvar_mode st'
          \<and> evaluate (node st') 0 = Some (- 3))
   \<and> main [''A B'' @ nl] = [Stderr (''error: stack not empty'' @ nl), Stdout nl, Exit 0]
   \<and> (\<exists>st'. parse_line empty_state (''AND'' @ nl) = Next st' \<and> \<not> slashvar_mode st'
          \<and> evaluate (node st') 0 = Some (- 2))
   \<and> main [''AND'' @ nl] = [Stderr (''error: stack underflow'' @ nl), Stdout nl, Exit 0]
   \<and> (\<exists>st'. parse_line empty_state (concat (replicate 129 ''A '') @ nl) = Next st'
          \<and> \<not> slashvar_mode st' \<and> evaluate (node st') 0 = Some (- 1))
   \<and> main [concat (replicate 129 ''A '') @ nl]
       = [Stderr (''error: stack overflow'' @ nl), Stdout nl, Exit 0]
   \<and> \<not> expression_form EXPR (map Token.type (tokens (c_string (''A NOT'' @ nl))))
   \<and> main [''A NOT'' @ nl]
       = [Stdout (''A '' @ nl), Stdout (''T  F'' @ nl), Stdout (''F  T'' @ nl), Stdout nl, Exit 0]"
proof (intro conjI impI)
  assume a: "node st = [] \<and> stack st = [] \<and> parse_line st line = Next st' \<and> \<not> slashvar_mode st'"
  then have n: "node st = []" and s: "stack st = []" and pl: "parse_line st line = Next st'"
    by simp_all
  {
    assume le: "length (variable st') \<le> 31"
    have "ids_ok (variable st') (node st')"
      using n s pl by (rule parse_line_ids_ok)
    then have "evaluate (node st') 0 \<noteq> None"
      unfolding evaluate_def using le by (rule evaluate_loop_defined)
    then obtain v where v: "evaluate (node st') 0 = Some v" by auto
    moreover from v have "v = - 3 \<or> v = - 2 \<or> v = - 1 \<or> v = 0 \<or> v = 1"
      by (rule evaluate_range)
    moreover have "evaluate (node st') bits = Some v" if "v < 0" for bits
      using evaluate_sim [of "node st'" 0 bits] v that by (simp add: result_sim_def)
    ultimately show "\<exists>v. evaluate (node st') 0 = Some v
                  \<and> (v = - 3 \<or> v = - 2 \<or> v = - 1 \<or> v = 0 \<or> v = 1)
                  \<and> (\<forall>bits. v < 0 \<longrightarrow> evaluate (node st') bits = Some v)"
      by blast
  }
  assume f: "expression_form EXPR (map Token.type (tokens (c_string line)))"
  from expression_line_depth [OF n s f pl]
  show d: "depth_after (node st') 0 = Some 1" by simp
  have one: "evaluate (node st') bits = None \<or> evaluate (node st') bits = Some 0
      \<or> evaluate (node st') bits = Some 1" for bits
    unfolding evaluate_def
    using d by (intro eval_depth_one) (simp_all add: bool_stack_def bool_r_def)
  show "\<forall>bits v. evaluate (node st') bits = Some v \<longrightarrow> v = 0 \<or> v = 1"
    using one by (metis option.distinct(1) option.inject)
  assume le: "length (variable st') \<le> 31"
  have "ids_ok (variable st') (node st')"
    using n s pl by (rule parse_line_ids_ok)
  then have "evaluate (node st') bits \<noteq> None" for bits
    unfolding evaluate_def using le by (rule evaluate_loop_defined)
  with one show "\<forall>bits. evaluate (node st') bits = Some 0 \<or> evaluate (node st') bits = Some 1"
    by blast
next
  have "parse_line empty_state (''A B'' @ nl) =
     Next \<lparr>variable = [''A'', ''B''],
           node = [\<lparr>Node.type = VARIABLE, id = 0\<rparr>, \<lparr>Node.type = VARIABLE, id = 1\<rparr>],
           stack = [], first_token = False, slashvar_mode = False\<rparr>"
    by code_simp
  moreover have "evaluate [\<lparr>Node.type = VARIABLE, id = 0\<rparr>, \<lparr>Node.type = VARIABLE, id = 1\<rparr>] 0
      = Some (- 3)"
    by code_simp
  ultimately show "\<exists>st'. parse_line empty_state (''A B'' @ nl) = Next st' \<and> \<not> slashvar_mode st'
          \<and> evaluate (node st') 0 = Some (- 3)"
    by simp
next
  show "main [''A B'' @ nl] = [Stderr (''error: stack not empty'' @ nl), Stdout nl, Exit 0]"
    by code_simp
next
  have "parse_line empty_state (''AND'' @ nl) =
     Next \<lparr>variable = [], node = [\<lparr>Node.type = OPERATOR, id = OP_AND\<rparr>],
           stack = [], first_token = False, slashvar_mode = False\<rparr>"
    by code_simp
  moreover have "evaluate [\<lparr>Node.type = OPERATOR, id = OP_AND\<rparr>] 0 = Some (- 2)"
    by code_simp
  ultimately show "\<exists>st'. parse_line empty_state (''AND'' @ nl) = Next st' \<and> \<not> slashvar_mode st'
          \<and> evaluate (node st') 0 = Some (- 2)"
    by simp
next
  show "main [''AND'' @ nl] = [Stderr (''error: stack underflow'' @ nl), Stdout nl, Exit 0]"
    by code_simp
next
  from long_line_parsed long_line_overflow
  show "\<exists>st'. parse_line empty_state (concat (replicate 129 ''A '') @ nl) = Next st'
          \<and> \<not> slashvar_mode st' \<and> evaluate (node st') 0 = Some (- 1)"
    by simp
next
  show "main [concat (replicate 129 ''A '') @ nl]
       = [Stderr (''error: stack overflow'' @ nl), Stdout nl, Exit 0]"
    by (rule long_line_reported)
next
  show "\<not> expression_form EXPR (map Token.type (tokens (c_string (''A NOT'' @ nl))))"
    by code_simp
next
  show "main [''A NOT'' @ nl]
       = [Stdout (''A '' @ nl), Stdout (''T  F'' @ nl), Stdout (''F  T'' @ nl), Stdout nl, Exit 0]"
    by code_simp
qed

theorem expression_leaves_one_value_witness:
  "node empty_state = [] \<and> stack empty_state = []
   \<and> parse_line empty_state (''(A | B) & !C'' @ nl) =
       Next \<lparr>variable = [''A'', ''B'', ''C''],
             node = [\<lparr>Node.type = VARIABLE, id = 0\<rparr>, \<lparr>Node.type = VARIABLE, id = 1\<rparr>,
                     \<lparr>Node.type = OPERATOR, id = OP_OR\<rparr>, \<lparr>Node.type = VARIABLE, id = 2\<rparr>,
                     \<lparr>Node.type = NOT, id = 0\<rparr>, \<lparr>Node.type = OPERATOR, id = OP_AND\<rparr>],
             stack = [], first_token = False, slashvar_mode = False\<rparr>
   \<and> expression_form EXPR (map Token.type (tokens (c_string (''(A | B) & !C'' @ nl))))
   \<and> depth_after [\<lparr>Node.type = VARIABLE, id = 0\<rparr>, \<lparr>Node.type = VARIABLE, id = 1\<rparr>,
                     \<lparr>Node.type = OPERATOR, id = OP_OR\<rparr>, \<lparr>Node.type = VARIABLE, id = 2\<rparr>,
                     \<lparr>Node.type = NOT, id = 0\<rparr>, \<lparr>Node.type = OPERATOR, id = OP_AND\<rparr>] 0 = Some 1
   \<and> (evaluate [\<lparr>Node.type = VARIABLE, id = 0\<rparr>, \<lparr>Node.type = VARIABLE, id = 1\<rparr>,
                     \<lparr>Node.type = OPERATOR, id = OP_OR\<rparr>, \<lparr>Node.type = VARIABLE, id = 2\<rparr>,
                     \<lparr>Node.type = NOT, id = 0\<rparr>, \<lparr>Node.type = OPERATOR, id = OP_AND\<rparr>] 5 = Some 0
        \<or> evaluate [\<lparr>Node.type = VARIABLE, id = 0\<rparr>, \<lparr>Node.type = VARIABLE, id = 1\<rparr>,
                     \<lparr>Node.type = OPERATOR, id = OP_OR\<rparr>, \<lparr>Node.type = VARIABLE, id = 2\<rparr>,
                     \<lparr>Node.type = NOT, id = 0\<rparr>, \<lparr>Node.type = OPERATOR, id = OP_AND\<rparr>] 5 = Some 1)"
proof -
  let ?N = "[\<lparr>Node.type = VARIABLE, id = 0\<rparr>, \<lparr>Node.type = VARIABLE, id = 1\<rparr>,
             \<lparr>Node.type = OPERATOR, id = OP_OR\<rparr>, \<lparr>Node.type = VARIABLE, id = 2\<rparr>,
             \<lparr>Node.type = NOT, id = 0\<rparr>, \<lparr>Node.type = OPERATOR, id = OP_AND\<rparr>]"
  let ?S = "\<lparr>variable = [''A'', ''B'', ''C''], node = ?N,
             stack = [], first_token = False, slashvar_mode = False\<rparr>"
  have h1: "node empty_state = []" and h2: "stack empty_state = []"
    by (simp_all add: empty_state_def)
  have h3: "parse_line empty_state (''(A | B) & !C'' @ nl) = Next ?S"
    by code_simp
  have h4: "\<not> slashvar_mode ?S"
    by simp
  have h5: "expression_form EXPR (map Token.type (tokens (c_string (''(A | B) & !C'' @ nl))))"
    by code_simp
  have h6: "length (variable ?S) \<le> 31"
    by simp
  from expression_leaves_one_value
         [of empty_state "''(A | B) & !C'' @ nl" ?S, THEN conjunct1] h1 h2 h3 h4 h5 h6
  have "depth_after (node ?S) 0 = Some 1"
    and "evaluate (node ?S) 5 = Some 0 \<or> evaluate (node ?S) 5 = Some 1"
    by blast+
  with h1 h2 h3 h5 show ?thesis by simp
qed

end
